theory Spec2Isabelle
  imports Complex_Main "HOL-Library.AList" "HOL-Library.Product_Lexorder"
begin

section \<open>Data model\<close>

text \<open>
  The development follows \<^verbatim>\<open>westminster_footfall_analysis_simple.py\<close> and
  \<^verbatim>\<open>backend/server.py\<close>. Python floats are idealised as real numbers: the
  arithmetic is exact, there is no NaN and no overflow. Python ints are \<open>int\<close>.
  Every dataclass is a record. Two dataclasses of the source share field names
  (\<^verbatim>\<open>cell_id\<close>, \<^verbatim>\<open>lat\<close>, \<^verbatim>\<open>footfall_score\<close>, ...), so the fields of
  \<^verbatim>\<open>BinLocation\<close>, \<^verbatim>\<open>TubeStation\<close>, \<^verbatim>\<open>BusStop\<close> and
  \<^verbatim>\<open>LicensedPremises\<close> carry a prefix where they would clash with \<^verbatim>\<open>GridCell\<close>.
\<close>

text \<open>An exception is a value; \<open>OSError\<close> carries the message of the operating
  system, the others have the fixed text that \<^verbatim>\<open>str(e)\<close> gives.\<close>

datatype py_error =
  ZeroDivisionError
  | KeyError int
  | IndexError
  | OSError string

record config =
  MIN_LON :: real
  MAX_LON :: real
  MIN_LAT :: real
  MAX_LAT :: real
  GRID_RESOLUTION :: real
  TUBE_INFLUENCE_RADIUS :: real
  BUS_INFLUENCE_RADIUS :: real
  PREMISES_INFLUENCE_RADIUS :: real
  TUBE_WEIGHT :: real
  BUS_WEIGHT :: real
  PREMISES_WEIGHT :: real
  N_FOOTFALL_CATEGORIES :: int
  OUTPUT_DIR :: string

record point =
  lat :: real
  lon :: real

record tube_station =
  tube_name :: string
  tube_lat :: real
  tube_lon :: real
  annual_usage :: real

record bus_stop =
  stop_id :: string
  bus_lat :: real
  bus_lon :: real
  frequency :: int

record licensed_premises =
  premises_id :: string
  area :: string
  premises_type :: string
  premises_lat :: real
  premises_lon :: real
  capacity :: int

record grid_cell =
  cell_id :: string
  center_lat :: real
  center_lon :: real
  tube_score :: real
  bus_score :: real
  premises_score :: real
  footfall_score :: real
  footfall_category :: int
  footfall_category_name :: string
  ward :: string
  road_name :: string
  locality :: string
  estimated_people_per_hour :: real
  estimated_bin_fill_rate :: real

record bin_location =
  bin_id :: string
  bin_lat :: real
  bin_lon :: real
  bin_type :: string
  capacity_liters :: int
  bin_cell_id :: string
  bin_footfall_category :: int
  bin_footfall_score :: real
  selected_for_sensor :: bool
  selection_rank :: int
  bin_ward :: string
  bin_road_name :: string
  bin_estimated_people_per_hour :: real
  bin_estimated_bin_fill_rate :: real

definition default_config :: config where
  "default_config =
     \<lparr>MIN_LON = - 0.20, MAX_LON = - 0.11, MIN_LAT = 51.485, MAX_LAT = 51.535,
      GRID_RESOLUTION = 0.001,
      TUBE_INFLUENCE_RADIUS = 0.005, BUS_INFLUENCE_RADIUS = 0.002,
      PREMISES_INFLUENCE_RADIUS = 0.0015,
      TUBE_WEIGHT = 0.45, BUS_WEIGHT = 0.30, PREMISES_WEIGHT = 0.25,
      N_FOOTFALL_CATEGORIES = 8, OUTPUT_DIR = ''output''\<rparr>"

definition new_grid_cell :: "string \<Rightarrow> real \<Rightarrow> real \<Rightarrow> grid_cell" where
  "new_grid_cell cid clat clon =
     \<lparr>cell_id = cid, center_lat = clat, center_lon = clon,
      tube_score = 0, bus_score = 0, premises_score = 0, footfall_score = 0,
      footfall_category = 0, footfall_category_name = [], ward = [], road_name = [],
      locality = [], estimated_people_per_hour = 0, estimated_bin_fill_rate = 0\<rparr>"

definition distance_to :: "point \<Rightarrow> point \<Rightarrow> real" where
  "distance_to self other = sqrt ((lat self - lat other)\<^sup>2 + (lon self - lon other)\<^sup>2)"

definition py_int :: "real \<Rightarrow> int" where
  "py_int x = (if 0 \<le> x then \<lfloor>x\<rfloor> else \<lceil>x\<rceil>)"

text \<open>Python list indexing: a negative index counts from the end, anything else
  out of range raises \<^verbatim>\<open>IndexError\<close>.\<close>

definition py_index :: "'a list \<Rightarrow> int \<Rightarrow> py_error + 'a" where
  "py_index xs i =
     (if 0 \<le> i \<and> i < int (length xs) then Inr (xs ! nat i)
      else if i < 0 \<and> - int (length xs) \<le> i then Inr (xs ! nat (int (length xs) + i))
      else Inl IndexError)"

section \<open>Grid generation\<close>

text \<open>\<^verbatim>\<open>point_in_polygon\<close>: the loop over \<^verbatim>\<open>range(n)\<close> carries \<open>j\<close> and
  \<open>inside\<close>. The division is evaluated only when the two ordinates differ
  (Python's \<^verbatim>\<open>and\<close> is short-circuit), so it cannot raise.\<close>

fun point_in_polygon_loop ::
  "real \<Rightarrow> real \<Rightarrow> (real \<times> real) list \<Rightarrow> nat list \<Rightarrow> nat \<Rightarrow> bool \<Rightarrow> bool" where
  "point_in_polygon_loop x y polygon [] j inside = inside"
| "point_in_polygon_loop x y polygon (i # is) j inside =
     (let xi = fst (polygon ! i); yi = snd (polygon ! i);
          xj = fst (polygon ! j); yj = snd (polygon ! j)
      in point_in_polygon_loop x y polygon is i
           (if ((yi > y) \<noteq> (yj > y)) \<and> (x < (xj - xi) * (y - yi) / (yj - yi) + xi)
            then \<not> inside else inside))"

definition point_in_polygon :: "real \<Rightarrow> real \<Rightarrow> (real \<times> real) list \<Rightarrow> bool" where
  "point_in_polygon x y polygon =
     (let n = length polygon
      in point_in_polygon_loop x y polygon [0..<n] (n - 1) False)"

definition westminster_boundary :: "(real \<times> real) list" where
  "westminster_boundary =
     [(- 0.1634, 51.5275), (- 0.1343, 51.5246), (- 0.1165, 51.5180), (- 0.1150, 51.5000),
      (- 0.1240, 51.4870), (- 0.1450, 51.4850), (- 0.1600, 51.4867), (- 0.1800, 51.5000),
      (- 0.2000, 51.5100), (- 0.1900, 51.5200), (- 0.1634, 51.5275)]"

definition is_in_westminster :: "real \<Rightarrow> real \<Rightarrow> bool" where
  "is_in_westminster la lo =
     (if la < 51.485 \<or> la > 51.535 then False
      else if lo < - 0.20 \<or> lo > - 0.11 then False
      else point_in_polygon lo la westminster_boundary)"

text \<open>The format \<^verbatim>\<open>f"CELL{cell_id:05d}"\<close>: decimal digits, padded with zeros to
  five places.\<close>

fun decimal :: "nat \<Rightarrow> string" where
  "decimal n = (if n < 10 then [''0123456789'' ! n]
                else decimal (n div 10) @ [''0123456789'' ! (n mod 10)])"

definition cell_name :: "nat \<Rightarrow> string" where
  "cell_name k = ''CELL'' @ replicate (5 - length (decimal k)) (CHR ''0'') @ decimal k"

text \<open>The two nested \<^verbatim>\<open>while\<close> loops of \<^verbatim>\<open>create_grid\<close>. They need not stop
  (a resolution that is not positive), so both are partial: \<open>None\<close> is a run that
  never returns. The state is the list of cells and the counter \<open>cell_id\<close>.\<close>

partial_function (option) grid_row ::
  "config \<Rightarrow> real \<Rightarrow> real \<Rightarrow> grid_cell list \<times> nat \<Rightarrow> (grid_cell list \<times> nat) option" where
  "grid_row cfg la lo st =
     (if lo \<le> MAX_LON cfg then
        grid_row cfg la (lo + GRID_RESOLUTION cfg)
          (if is_in_westminster la lo
           then (fst st @ [new_grid_cell (cell_name (snd st)) la lo], snd st + 1)
           else st)
      else Some st)"

partial_function (option) grid_rows ::
  "config \<Rightarrow> real \<Rightarrow> grid_cell list \<times> nat \<Rightarrow> (grid_cell list \<times> nat) option" where
  "grid_rows cfg la st =
     (if la \<le> MAX_LAT cfg then
        Option.bind (grid_row cfg la (MIN_LON cfg) st)
          (\<lambda>st'. grid_rows cfg (la + GRID_RESOLUTION cfg) st')
      else Some st)"

definition create_grid :: "config \<Rightarrow> grid_cell list option" where
  "create_grid cfg = map_option fst (grid_rows cfg (MIN_LAT cfg) ([], 0))"

section \<open>Footfall scoring\<close>

text \<open>Each of the three passes of \<^verbatim>\<open>calculate_footfall_scores\<close> adds, cell by cell,
  the influence of every point of interest within the radius to the cell's raw score
  and keeps the running maximum, which starts at \<open>0\<close>. A division by the radius is
  evaluated only under \<open>dist < radius\<close>, where the radius is positive.\<close>

definition cell_point :: "grid_cell \<Rightarrow> point" where
  "cell_point cell = \<lparr>lat = center_lat cell, lon = center_lon cell\<rparr>"

definition tube_step :: "config \<Rightarrow> grid_cell \<Rightarrow> tube_station \<Rightarrow> grid_cell" where
  "tube_step cfg cell tube =
     (let dist = distance_to (cell_point cell) \<lparr>lat = tube_lat tube, lon = tube_lon tube\<rparr>
      in if dist < TUBE_INFLUENCE_RADIUS cfg
         then cell\<lparr>tube_score := tube_score cell
                + annual_usage tube * (1 - dist / TUBE_INFLUENCE_RADIUS cfg)\<^sup>2\<rparr>
         else cell)"

definition bus_step :: "config \<Rightarrow> grid_cell \<Rightarrow> bus_stop \<Rightarrow> grid_cell" where
  "bus_step cfg cell bus =
     (let dist = distance_to (cell_point cell) \<lparr>lat = bus_lat bus, lon = bus_lon bus\<rparr>
      in if dist < BUS_INFLUENCE_RADIUS cfg
         then cell\<lparr>bus_score := bus_score cell
                + real_of_int (frequency bus) * (1 - dist / BUS_INFLUENCE_RADIUS cfg)\<rparr>
         else cell)"

definition premises_step :: "config \<Rightarrow> grid_cell \<Rightarrow> licensed_premises \<Rightarrow> grid_cell" where
  "premises_step cfg cell p =
     (let dist = distance_to (cell_point cell) \<lparr>lat = premises_lat p, lon = premises_lon p\<rparr>
      in if dist < PREMISES_INFLUENCE_RADIUS cfg
         then cell\<lparr>premises_score := premises_score cell
                + real_of_int (capacity p) * (1 - dist / PREMISES_INFLUENCE_RADIUS cfg)\<rparr>
         else cell)"

fun score_pass ::
  "(grid_cell \<Rightarrow> 'p \<Rightarrow> grid_cell) \<Rightarrow> (grid_cell \<Rightarrow> real) \<Rightarrow> 'p list \<Rightarrow>
   grid_cell list \<Rightarrow> real \<Rightarrow> grid_cell list \<times> real" where
  "score_pass step score pois [] mx = ([], mx)"
| "score_pass step score pois (cell # cells) mx =
     (let cell' = foldl step cell pois;
          r = score_pass step score pois cells (max mx (score cell'))
      in (cell' # fst r, snd r))"

definition composite :: "config \<Rightarrow> real \<Rightarrow> real \<Rightarrow> real \<Rightarrow> grid_cell \<Rightarrow> grid_cell" where
  "composite cfg max_tube max_bus max_premises cell =
     (let tube_norm = (if max_tube > 0 then tube_score cell / max_tube else 0);
          bus_norm = (if max_bus > 0 then bus_score cell / max_bus else 0);
          premises_norm = (if max_premises > 0 then premises_score cell / max_premises else 0)
      in cell\<lparr>footfall_score :=
           TUBE_WEIGHT cfg * tube_norm + BUS_WEIGHT cfg * bus_norm
           + PREMISES_WEIGHT cfg * premises_norm\<rparr>)"

definition calculate_footfall_scores ::
  "grid_cell list \<Rightarrow> tube_station list \<Rightarrow> bus_stop list \<Rightarrow> licensed_premises list \<Rightarrow>
   config \<Rightarrow> grid_cell list" where
  "calculate_footfall_scores cells tubes buses premises cfg =
     (let t = score_pass (tube_step cfg) tube_score tubes cells 0;
          b = score_pass (bus_step cfg) bus_score buses (fst t) 0;
          p = score_pass (premises_step cfg) premises_score premises (fst b) 0
      in map (composite cfg (snd t) (snd b) (snd p)) (fst p))"

section \<open>Categorisation\<close>

definition category_names :: "string list" where
  "category_names =
     [''Very Low Footfall (Residential)'', ''Low Footfall'', ''Low-Medium Footfall'',
      ''Medium Footfall'', ''Medium-High Footfall'', ''High Footfall'',
      ''Very High Footfall'', ''Peak Footfall (Commercial Core)'']"

definition estimate_people_per_hour :: "real \<Rightarrow> int \<Rightarrow> py_error + real" where
  "estimate_people_per_hour score category =
     (case py_index [50, 150, 350, 700, 1200, 2000, 3500, 5000 :: real] category of
        Inl e \<Rightarrow> Inl e
      | Inr base \<Rightarrow>
          let variation = base * 0.3 * (score * 2 - 0.5)
          in Inr (max 10 (base + variation)))"

definition estimate_bin_fill_rate :: "real \<Rightarrow> real \<Rightarrow> real" where
  "estimate_bin_fill_rate people_per_hour bin_capacity =
     (let waste_per_person = 0.02; waste_density = 0.1; active_hours = 12;
          daily_waste_kg = people_per_hour * active_hours * waste_per_person;
          daily_waste_liters = daily_waste_kg / waste_density;
          fill_rate = (daily_waste_liters / bin_capacity) * 100
      in min 200 fill_rate)"

text \<open>The first loop of \<^verbatim>\<open>categorize_cells\<close> walks the sorted list of references
  (positions in \<open>cells\<close>) with \<^verbatim>\<open>enumerate\<close> and writes category and label into
  the object. The label lookup raises when the category is no index of the table of
  eight labels.\<close>

fun category_loop ::
  "int \<Rightarrow> nat \<Rightarrow> nat \<Rightarrow> nat list \<Rightarrow> grid_cell list \<Rightarrow> py_error + grid_cell list" where
  "category_loop K n i [] cells = Inr cells"
| "category_loop K n i (c # cs) cells =
     (let percentile = real i / real n;
          category = min (py_int (percentile * real_of_int K)) (K - 1)
      in case py_index category_names category of
           Inl e \<Rightarrow> Inl e
         | Inr name \<Rightarrow>
             category_loop K n (i + 1) cs
               (cells[c := (cells ! c)\<lparr>footfall_category := category,
                                       footfall_category_name := name\<rparr>]))"

text \<open>The second loop tags every cell with ward and road and derives the
  estimates. \<^verbatim>\<open>get_ward_for_location\<close> is a table lookup that always returns and
  \<^verbatim>\<open>get_road_for_cell\<close> draws from Python's seeded random generator; no property
  below depends on either, so both are parameters of the model.\<close>

fun tag_loop ::
  "(real \<Rightarrow> real \<Rightarrow> string) \<Rightarrow> (real \<Rightarrow> real \<Rightarrow> string \<Rightarrow> string) \<Rightarrow>
   grid_cell list \<Rightarrow> py_error + grid_cell list" where
  "tag_loop get_ward get_road [] = Inr []"
| "tag_loop get_ward get_road (cell # cells) =
     (let w = get_ward (center_lon cell) (center_lat cell);
          r = get_road (center_lat cell) (center_lon cell) w
      in case estimate_people_per_hour (footfall_score cell) (footfall_category cell) of
           Inl e \<Rightarrow> Inl e
         | Inr pph \<Rightarrow>
             (case tag_loop get_ward get_road cells of
                Inl e \<Rightarrow> Inl e
              | Inr cells' \<Rightarrow>
                  Inr (cell\<lparr>ward := w, road_name := r, estimated_people_per_hour := pph,
                            estimated_bin_fill_rate := estimate_bin_fill_rate pph 240\<rparr>
                       # cells')))"

text \<open>The statistics printed at the end read \<^verbatim>\<open>category_names[cat]\<close> for every
  \<^verbatim>\<open>cat in range(K)\<close>.\<close>

fun print_categories :: "int list \<Rightarrow> py_error + unit" where
  "print_categories [] = Inr ()"
| "print_categories (cat # cats) =
     (case py_index category_names cat of
        Inl e \<Rightarrow> Inl e
      | Inr name \<Rightarrow> print_categories cats)"

definition categorize_cells ::
  "(real \<Rightarrow> real \<Rightarrow> string) \<Rightarrow> (real \<Rightarrow> real \<Rightarrow> string \<Rightarrow> string) \<Rightarrow>
   grid_cell list \<Rightarrow> config \<Rightarrow> py_error + grid_cell list" where
  "categorize_cells get_ward get_road cells cfg =
     (let sorted_cells = sort_key (\<lambda>c. footfall_score (cells ! c)) [0..<length cells];
          n = length sorted_cells
      in case category_loop (N_FOOTFALL_CATEGORIES cfg) n 0 sorted_cells cells of
           Inl e \<Rightarrow> Inl e
         | Inr cells1 \<Rightarrow>
             (case tag_loop get_ward get_road cells1 of
                Inl e \<Rightarrow> Inl e
              | Inr cells2 \<Rightarrow>
                  (case print_categories (map int [0..<nat (N_FOOTFALL_CATEGORIES cfg)]) of
                     Inl e \<Rightarrow> Inl e
                   | Inr u \<Rightarrow> Inr cells2)))"

section \<open>Bin assignment\<close>

text \<open>The scan for the nearest cell starts from \<^verbatim>\<open>min_dist = inf\<close> and
  \<^verbatim>\<open>nearest_cell = None\<close>, which is \<open>None\<close> here; a cell replaces the current one
  only when it is strictly nearer. The function returns its argument list and prints
  the number of bins it assigned; the model returns both.\<close>

fun nearest_loop :: "point \<Rightarrow> grid_cell list \<Rightarrow> (real \<times> grid_cell) option \<Rightarrow>
    (real \<times> grid_cell) option" where
  "nearest_loop p [] best = best"
| "nearest_loop p (cell # cells) best =
     (let dist = distance_to p (cell_point cell)
      in nearest_loop p cells
           (case best of
              None \<Rightarrow> Some (dist, cell)
            | Some (min_dist, nearest_cell) \<Rightarrow>
                if dist < min_dist then Some (dist, cell) else best))"

definition assign_bin :: "grid_cell list \<Rightarrow> config \<Rightarrow> bin_location \<Rightarrow> bin_location \<times> bool" where
  "assign_bin cells cfg bin_loc =
     (case nearest_loop \<lparr>lat = bin_lat bin_loc, lon = bin_lon bin_loc\<rparr> cells None of
        None \<Rightarrow> (bin_loc, False)
      | Some (min_dist, nearest_cell) \<Rightarrow>
          if min_dist < GRID_RESOLUTION cfg * 2 then
            (bin_loc\<lparr>bin_cell_id := cell_id nearest_cell,
                     bin_footfall_category := footfall_category nearest_cell,
                     bin_footfall_score := footfall_score nearest_cell,
                     bin_ward := ward nearest_cell,
                     bin_road_name := road_name nearest_cell,
                     bin_estimated_people_per_hour := estimated_people_per_hour nearest_cell,
                     bin_estimated_bin_fill_rate := estimated_bin_fill_rate nearest_cell\<rparr>,
             True)
          else (bin_loc, False))"

fun assign_loop ::
  "grid_cell list \<Rightarrow> config \<Rightarrow> bin_location list \<Rightarrow> nat \<Rightarrow> bin_location list \<times> nat" where
  "assign_loop cells cfg [] assigned = ([], assigned)"
| "assign_loop cells cfg (bin_loc # bins) assigned =
     (let r = assign_bin cells cfg bin_loc;
          rest = assign_loop cells cfg bins (if snd r then assigned + 1 else assigned)
      in (fst r # fst rest, snd rest))"

definition assign_bins_to_cells ::
  "bin_location list \<Rightarrow> grid_cell list \<Rightarrow> config \<Rightarrow> bin_location list \<times> nat" where
  "assign_bins_to_cells bins cells cfg = assign_loop cells cfg bins 0"

section \<open>Sensor placement\<close>

text \<open>
  \<^verbatim>\<open>optimize_sensor_placement\<close> mutates the \<^verbatim>\<open>BinLocation\<close> objects of its
  argument in place and returns a list of references to some of them. The model keeps
  the objects in the list \<open>bins\<close> (the store) and names an object by its position in
  that list; a list of references is a list of positions. The objects of the argument
  list are taken to be pairwise distinct objects, as every loader of the source
  creates them.

  A Python \<^verbatim>\<open>dict\<close> with integer keys is an association list in insertion order
  (\<open>AList.update\<close> overwrites in place or appends, as a dict assignment does).
\<close>

type_synonym pydict = "(int \<times> int) list"

definition assigned_bins :: "bin_location list \<Rightarrow> nat list" where
  "assigned_bins bins = filter (\<lambda>a. bin_cell_id (bins ! a) \<noteq> []) [0..<length bins]"

fun select_all :: "nat \<Rightarrow> nat list \<Rightarrow> bin_location list \<Rightarrow> bin_location list" where
  "select_all i [] bins = bins"
| "select_all i (a # as) bins =
     select_all (i + 1) as
       (bins[a := (bins ! a)\<lparr>selected_for_sensor := True, selection_rank := int i + 1\<rparr>])"

definition dict_get :: "pydict \<Rightarrow> int \<Rightarrow> int \<Rightarrow> int" where
  "dict_get d k dflt = (case map_of d k of None \<Rightarrow> dflt | Some v \<Rightarrow> v)"

fun count_categories :: "bin_location list \<Rightarrow> nat list \<Rightarrow> pydict \<Rightarrow> pydict" where
  "count_categories bins [] category_counts = category_counts"
| "count_categories bins (a # as) category_counts =
     (let cat = bin_footfall_category (bins ! a)
      in count_categories bins as
           (AList.update cat (dict_get category_counts cat 0 + 1) category_counts))"

fun target_loop :: "int \<Rightarrow> real \<Rightarrow> pydict \<Rightarrow> pydict \<Rightarrow> py_error + pydict" where
  "target_loop n_sensors total_sqrt [] target_per_category = Inr target_per_category"
| "target_loop n_sensors total_sqrt ((cat, count) # items) target_per_category =
     (if total_sqrt = 0 then Inl ZeroDivisionError
      else
        let target = py_int (real_of_int n_sensors * sqrt (real_of_int count) / total_sqrt);
            target = max target (min 20 count)
        in target_loop n_sensors total_sqrt items
             (AList.update cat (min target count) target_per_category))"

fun adjust_pass ::
  "int \<Rightarrow> pydict \<Rightarrow> int list \<Rightarrow> pydict \<Rightarrow> int \<Rightarrow> py_error + (pydict \<times> int)" where
  "adjust_pass n_sensors category_counts [] target_per_category current_total =
     Inr (target_per_category, current_total)"
| "adjust_pass n_sensors category_counts (cat # cats) target_per_category current_total =
     (case (map_of target_per_category cat, map_of category_counts cat) of
        (Some t, Some c) \<Rightarrow>
          if t < c then
            (let target_per_category' = AList.update cat (t + 1) target_per_category;
                 current_total' = current_total + 1
             in if current_total' \<ge> n_sensors
                then Inr (target_per_category', current_total')
                else adjust_pass n_sensors category_counts cats
                       target_per_category' current_total')
          else adjust_pass n_sensors category_counts cats target_per_category current_total
      | _ \<Rightarrow> Inl (KeyError cat))"

partial_function (option) adjust_loop ::
  "int \<Rightarrow> pydict \<Rightarrow> pydict \<Rightarrow> int \<Rightarrow> (py_error + (pydict \<times> int)) option" where
  "adjust_loop n_sensors category_counts target_per_category current_total =
     (if current_total < n_sensors then
        (case adjust_pass n_sensors category_counts (sort (map fst target_per_category))
                target_per_category current_total of
           Inl e \<Rightarrow> Some (Inl e)
         | Inr r \<Rightarrow> adjust_loop n_sensors category_counts (fst r) (snd r))
      else Some (Inr (target_per_category, current_total)))"

definition py_range_step :: "nat \<Rightarrow> nat \<Rightarrow> nat list" where
  "py_range_step n step = map (\<lambda>k. k * step) [0..<(n + step - 1) div step]"

definition selected_indices :: "nat \<Rightarrow> nat \<Rightarrow> int \<Rightarrow> nat list" where
  "selected_indices n step target =
     foldl (\<lambda>sel i. if int (length sel) < target then sel @ [i] else sel) []
       (py_range_step n step)"

type_synonym select_state = "bin_location list \<times> nat list \<times> int"

fun mark_selected :: "nat list \<Rightarrow> select_state \<Rightarrow> select_state" where
  "mark_selected [] st = st"
| "mark_selected (a # as) (bins, selected, rank) =
     mark_selected as
       (bins[a := (bins ! a)\<lparr>selected_for_sensor := True, selection_rank := rank\<rparr>],
        selected @ [a], rank + 1)"

definition cat_bins_of :: "bin_location list \<Rightarrow> nat list \<Rightarrow> int \<Rightarrow> nat list" where
  "cat_bins_of bins assigned cat =
     sort_key (\<lambda>a. (bin_lat (bins ! a), bin_lon (bins ! a)))
       (filter (\<lambda>a. bin_footfall_category (bins ! a) = cat) assigned)"

fun select_loop ::
  "pydict \<Rightarrow> nat list \<Rightarrow> int list \<Rightarrow> select_state \<Rightarrow> py_error + select_state" where
  "select_loop target_per_category assigned [] st = Inr st"
| "select_loop target_per_category assigned (cat # cats) (bins, selected, rank) =
     (case map_of target_per_category cat of
        None \<Rightarrow> Inl (KeyError cat)
      | Some target \<Rightarrow>
          let cat_bins = cat_bins_of bins assigned cat
          in if target = 0 then Inl ZeroDivisionError
             else
               let step = max 1 (int (length cat_bins) div target);
                   idxs = selected_indices (length cat_bins) (nat step) target
               in select_loop target_per_category assigned cats
                    (mark_selected (map (\<lambda>i. cat_bins ! i) idxs) (bins, selected, rank)))"

definition optimize_sensor_placement ::
  "bin_location list \<Rightarrow> int \<Rightarrow> int \<Rightarrow> (py_error + (bin_location list \<times> nat list)) option" where
  "optimize_sensor_placement bins n_sensors n_categories =
     (let assigned = assigned_bins bins in
      if int (length assigned) < n_sensors then
        Some (Inr (select_all 0 assigned bins, assigned))
      else
        let category_counts = count_categories bins assigned [];
            total_sqrt = (\<Sum>c\<leftarrow>map snd category_counts. sqrt (real_of_int c))
        in case target_loop n_sensors total_sqrt category_counts [] of
             Inl e \<Rightarrow> Some (Inl e)
           | Inr target_per_category \<Rightarrow>
               (case adjust_loop n_sensors category_counts target_per_category
                       (sum_list (map snd target_per_category)) of
                  None \<Rightarrow> None
                | Some (Inl e) \<Rightarrow> Some (Inl e)
                | Some (Inr r) \<Rightarrow>
                    (case select_loop (fst r) assigned (sort (map fst (fst r)))
                            (bins, [], 1) of
                       Inl e \<Rightarrow> Some (Inl e)
                     | Inr (bins', selected, rank) \<Rightarrow> Some (Inr (bins', selected)))))"

section \<open>The analysis run of the server\<close>

text \<open>\<^verbatim>\<open>AnalysisState\<close> of \<^verbatim>\<open>backend/server.py\<close>, without its lock: the run is
  modelled as the sequential program it is for one thread. What the run takes from
  outside the modelled code is gathered in an environment: the three data loaders,
  the two tagging functions, the outcome of writing and reading back the sample bin
  file (the loaded bins, or the exception), and the outcome of saving the results.\<close>

record analysis_state =
  st_config :: config
  st_tubes :: "tube_station list option"
  st_buses :: "bus_stop list option"
  st_premises :: "licensed_premises list option"
  st_cells :: "grid_cell list option"
  st_bins :: "bin_location list option"
  st_selected_bins :: "bin_location list option"
  st_status :: string
  st_progress :: int
  st_message :: string

record environment =
  load_tube_stations :: "tube_station list"
  load_bus_stops :: "config \<Rightarrow> bus_stop list"
  load_licensed_premises :: "licensed_premises list"
  get_ward_for_location :: "real \<Rightarrow> real \<Rightarrow> string"
  get_road_for_cell :: "real \<Rightarrow> real \<Rightarrow> string \<Rightarrow> string"
  sample_bins :: "py_error + bin_location list"
  save_outputs :: "py_error + unit"

definition initial_state :: analysis_state where
  "initial_state =
     \<lparr>st_config = default_config, st_tubes = None, st_buses = None, st_premises = None,
      st_cells = None, st_bins = None, st_selected_bins = None,
      st_status = ''idle'', st_progress = 0, st_message = ''Ready to run''\<rparr>"

fun error_text :: "py_error \<Rightarrow> string" where
  "error_text ZeroDivisionError = ''division by zero''"
| "error_text (KeyError k) = (if k < 0 then ''-'' @ decimal (nat (- k)) else decimal (nat k))"
| "error_text IndexError = ''list index out of range''"
| "error_text (OSError msg) = msg"

definition failed :: "py_error \<Rightarrow> analysis_state \<Rightarrow> analysis_state" where
  "failed e s = s\<lparr>st_status := ''error'', st_message := ''Error: '' @ error_text e\<rparr>"

definition run_full_analysis :: "environment \<Rightarrow> analysis_state \<Rightarrow> analysis_state option" where
  "run_full_analysis env s0 =
     (let s = s0\<lparr>st_status := ''running'', st_progress := 0, st_message := ''Initializing...''\<rparr>;
          s = s\<lparr>st_progress := 5, st_message := ''Loading tube station data...''\<rparr>;
          s = s\<lparr>st_tubes := Some (load_tube_stations env)\<rparr>;
          s = s\<lparr>st_progress := 15, st_message := ''Loading bus stop data...''\<rparr>;
          s = s\<lparr>st_buses := Some (load_bus_stops env (st_config s))\<rparr>;
          s = s\<lparr>st_progress := 25, st_message := ''Loading licensed premises data...''\<rparr>;
          s = s\<lparr>st_premises := Some (load_licensed_premises env)\<rparr>;
          s = s\<lparr>st_progress := 35, st_message := ''Creating analysis grid...''\<rparr>
      in case create_grid (st_config s) of
           None \<Rightarrow> None
         | Some cells \<Rightarrow>
             let s = s\<lparr>st_progress := 45, st_message := ''Calculating footfall scores...''\<rparr>;
                 cells = calculate_footfall_scores cells (load_tube_stations env)
                           (load_bus_stops env (st_config s)) (load_licensed_premises env)
                           (st_config s);
                 s = s\<lparr>st_progress := 60, st_message := ''Categorizing footfall zones...''\<rparr>
             in case categorize_cells (get_ward_for_location env) (get_road_for_cell env)
                       cells (st_config s) of
                  Inl e \<Rightarrow> Some (failed e s)
                | Inr cells \<Rightarrow>
                    let s = s\<lparr>st_cells := Some cells\<rparr>;
                        s = s\<lparr>st_progress := 70,
                              st_message := ''Generating sample bin locations...''\<rparr>
                    in case sample_bins env of
                         Inl e \<Rightarrow> Some (failed e s)
                       | Inr bins \<Rightarrow>
                           let s = s\<lparr>st_progress := 80,
                                     st_message := ''Assigning bins to grid cells...''\<rparr>;
                               bins = fst (assign_bins_to_cells bins cells (st_config s));
                               s = s\<lparr>st_progress := 90,
                                     st_message := ''Optimizing sensor placement...''\<rparr>
                           in case optimize_sensor_placement bins 1000
                                     (N_FOOTFALL_CATEGORIES (st_config s)) of
                                None \<Rightarrow> None
                              | Some (Inl e) \<Rightarrow> Some (failed e s)
                              | Some (Inr r) \<Rightarrow>
                                  let s = s\<lparr>st_bins := Some (fst r)\<rparr>;
                                      s = s\<lparr>st_progress := 95,
                                            st_message := ''Saving results...''\<rparr>
                                  in case save_outputs env of
                                       Inl e \<Rightarrow> Some (failed e s)
                                     | Inr u \<Rightarrow>
                                         Some (s\<lparr>st_progress := 100,
                                                  st_message := ''Analysis complete!'',
                                                  st_status := ''complete''\<rparr>))"

section \<open>Notions used in the proofs\<close>

text \<open>\<open>target_of\<close> is the target that the loop over \<^verbatim>\<open>category_counts.items()\<close>
  stores for a category with \<open>c\<close> bins. \<open>fits tp cc\<close>: the targets \<open>tp\<close> have the keys
  of the counts \<open>cc\<close>, in the same order, and no target exceeds its count.
  \<open>placed bins0 bins sel\<close>: the store \<open>bins\<close> is \<open>bins0\<close> with exactly the objects
  \<open>sel\<close> marked, the \<open>j\<close>-th of them with rank \<open>j + 1\<close>. \<open>picks\<close> are the objects the
  stride selection takes from one category.\<close>

definition target_of :: "int \<Rightarrow> real \<Rightarrow> int \<Rightarrow> int" where
  "target_of n ts c =
     min (max (py_int (real_of_int n * sqrt (real_of_int c) / ts)) (min 20 c)) c"

definition fits :: "pydict \<Rightarrow> pydict \<Rightarrow> bool" where
  "fits tp cc \<longleftrightarrow>
     map fst tp = map fst cc \<and> distinct (map fst cc) \<and>
     (\<forall>i<length cc. snd (tp ! i) \<le> snd (cc ! i))"

definition placed :: "bin_location list \<Rightarrow> bin_location list \<Rightarrow> nat list \<Rightarrow> bool" where
  "placed bins0 bins sel \<longleftrightarrow>
     length bins = length bins0 \<and> distinct sel \<and> (\<forall>a\<in>set sel. a < length bins0) \<and>
     (\<forall>j<length sel. bins ! (sel ! j)
        = (bins0 ! (sel ! j))\<lparr>selected_for_sensor := True, selection_rank := int j + 1\<rparr>) \<and>
     (\<forall>i. i \<notin> set sel \<longrightarrow> bins ! i = bins0 ! i)"

definition picks :: "bin_location list \<Rightarrow> nat list \<Rightarrow> pydict \<Rightarrow> int \<Rightarrow> nat list" where
  "picks bins0 assigned tp cat =
     (let cb = cat_bins_of bins0 assigned cat; t = the (map_of tp cat)
      in map (\<lambda>i. cb ! i)
           (selected_indices (length cb) (nat (max 1 (int (length cb) div t))) t))"

text \<open>\<open>new_bin\<close> is the constructor call \<^verbatim>\<open>BinLocation(bin_id, lat, lon)\<close> with
  the defaults of the dataclass. \<open>same_other_fields b b'\<close> says that \<open>b'\<close> agrees with
  \<open>b\<close> on every field except \<^verbatim>\<open>selected_for_sensor\<close> and \<^verbatim>\<open>selection_rank\<close>.
  \<open>two_bins\<close> and \<open>three_bins\<close> are small inputs for evaluation.\<close>

definition new_bin :: "string \<Rightarrow> real \<Rightarrow> real \<Rightarrow> bin_location" where
  "new_bin bid la lo =
     \<lparr>bin_id = bid, bin_lat = la, bin_lon = lo, bin_type = [], capacity_liters = 0,
      bin_cell_id = [], bin_footfall_category = 0, bin_footfall_score = 0,
      selected_for_sensor = False, selection_rank = 0, bin_ward = [], bin_road_name = [],
      bin_estimated_people_per_hour = 0, bin_estimated_bin_fill_rate = 0\<rparr>"

definition same_other_fields :: "bin_location \<Rightarrow> bin_location \<Rightarrow> bool" where
  "same_other_fields b b' \<longleftrightarrow>
     bin_id b' = bin_id b \<and> bin_lat b' = bin_lat b \<and> bin_lon b' = bin_lon b \<and>
     bin_type b' = bin_type b \<and> capacity_liters b' = capacity_liters b \<and>
     bin_cell_id b' = bin_cell_id b \<and> bin_footfall_category b' = bin_footfall_category b \<and>
     bin_footfall_score b' = bin_footfall_score b \<and> bin_ward b' = bin_ward b \<and>
     bin_road_name b' = bin_road_name b \<and>
     bin_estimated_people_per_hour b' = bin_estimated_people_per_hour b \<and>
     bin_estimated_bin_fill_rate b' = bin_estimated_bin_fill_rate b"

definition two_bins :: "bin_location list" where
  "two_bins =
     [(new_bin ''BIN00000'' 51.5101 (- 0.1402))\<lparr>bin_cell_id := ''CELL00000''\<rparr>,
      (new_bin ''BIN00001'' 51.5099 (- 0.1398))\<lparr>bin_cell_id := ''CELL00000''\<rparr>]"

definition three_bins :: "bin_location list" where
  "three_bins = two_bins @ [new_bin ''BIN00002'' 51.6 0.3]"

definition empty_box_config :: config where
  "empty_box_config = default_config\<lparr>MIN_LAT := 51.535, MAX_LAT := 51.485\<rparr>"

definition empty_lon_config :: config where
  "empty_lon_config = default_config\<lparr>MIN_LON := - 0.11, MAX_LON := - 0.20\<rparr>"

definition one_cell_config :: config where
  "one_cell_config = default_config\<lparr>MIN_LAT := 51.51, MAX_LAT := 51.51, MIN_LON := - 0.15, MAX_LON := - 0.15\<rparr>"

definition tube_influence :: "config \<Rightarrow> grid_cell \<Rightarrow> tube_station \<Rightarrow> real" where
  "tube_influence cfg cell tube =
     (if distance_to (cell_point cell) \<lparr>lat = tube_lat tube, lon = tube_lon tube\<rparr>
           < TUBE_INFLUENCE_RADIUS cfg
      then annual_usage tube
           * (1 - distance_to (cell_point cell) \<lparr>lat = tube_lat tube, lon = tube_lon tube\<rparr>
                  / TUBE_INFLUENCE_RADIUS cfg)\<^sup>2
      else 0)"

definition oxford_cells :: "grid_cell list" where
  "oxford_cells = [new_grid_cell ''CELL00000'' 51.515 (- 0.142),
                   new_grid_cell ''CELL00001'' 51.515 (- 0.141)]"

definition oxford_station :: tube_station where
  "oxford_station = \<lparr>tube_name = ''Oxford Circus'', tube_lat = 51.515, tube_lon = - 0.142,
                      annual_usage = 100\<rparr>"

definition bin_point :: "bin_location \<Rightarrow> point" where
  "bin_point b = \<lparr>lat = bin_lat b, lon = bin_lon b\<rparr>"

definition linked :: "bin_location \<Rightarrow> grid_cell \<Rightarrow> bin_location" where
  "linked b c =
     b\<lparr>bin_cell_id := cell_id c, bin_footfall_category := footfall_category c,
       bin_footfall_score := footfall_score c, bin_ward := ward c, bin_road_name := road_name c,
       bin_estimated_people_per_hour := estimated_people_per_hour c,
       bin_estimated_bin_fill_rate := estimated_bin_fill_rate c\<rparr>"

definition nearest :: "point \<Rightarrow> grid_cell list \<Rightarrow> grid_cell \<Rightarrow> bool" where
  "nearest p cells c \<longleftrightarrow>
     c \<in> set cells \<and>
     (\<forall>c'\<in>set cells. distance_to p (cell_point c) \<le> distance_to p (cell_point c'))"

definition category_at :: "int \<Rightarrow> nat \<Rightarrow> nat \<Rightarrow> int" where
  "category_at K n i = min (py_int (real i / real n * real_of_int K)) (K - 1)"

definition score_order :: "grid_cell list \<Rightarrow> nat list" where
  "score_order cells = sort_key (\<lambda>c. footfall_score (cells ! c)) [0..<length cells]"

definition ceil_div :: "nat \<Rightarrow> nat \<Rightarrow> nat" where
  "ceil_div x k = (x + k - 1) div k"

definition tie_cells :: "grid_cell list" where
  "tie_cells =
     [(new_grid_cell ''CELL00000'' 51.51 (- 0.15))\<lparr>footfall_score := 0.5\<rparr>,
      (new_grid_cell ''CELL00001'' 51.51 (- 0.149))\<lparr>footfall_score := 0.2\<rparr>,
      (new_grid_cell ''CELL00002'' 51.51 (- 0.148))\<lparr>footfall_score := 0.2\<rparr>]"

definition analysed_cells :: "environment \<Rightarrow> config \<Rightarrow> (py_error + grid_cell list) option" where
  "analysed_cells env cfg =
     (case create_grid cfg of
        None \<Rightarrow> None
      | Some cells \<Rightarrow>
          Some (categorize_cells (get_ward_for_location env) (get_road_for_cell env)
                  (calculate_footfall_scores cells (load_tube_stations env)
                     (load_bus_stops env cfg) (load_licensed_premises env) cfg) cfg))"

definition nine_labels_config :: config where
  "nine_labels_config = empty_box_config\<lparr>N_FOOTFALL_CATEGORIES := 9\<rparr>"

definition origin_station :: tube_station where
  "origin_station = \<lparr>tube_name = ''Station'', tube_lat = 0, tube_lon = 0, annual_usage = 100\<rparr>"

abbreviation raw_distance :: "bin_location \<Rightarrow> grid_cell \<Rightarrow> real" where
  "raw_distance b c \<equiv> sqrt ((bin_lat b - center_lat c)\<^sup>2 + (bin_lon b - center_lon c)\<^sup>2)"

definition corner_cells :: "grid_cell list" where
  "corner_cells = [new_grid_cell ''CELL00000'' 0 0, new_grid_cell ''CELL00001'' 0.0018 0.0013]"

definition corner_bins :: "bin_location list" where
  "corner_bins = [new_bin ''BIN00000'' 0.0006 0.0008, new_bin ''BIN00001'' (- 0.0012) (- 0.0016)]"

definition edge_cells :: "grid_cell list" where
  "edge_cells = [new_grid_cell ''CELL00000'' 0 0]"

definition edge_bins :: "bin_location list" where
  "edge_bins = [new_bin ''BIN00000'' 0.0012 0.0016]"

definition street_env :: environment where
  "street_env =
     \<lparr>load_tube_stations = [], load_bus_stops = (\<lambda>cfg. []), load_licensed_premises = [],
      get_ward_for_location = (\<lambda>lo la. ''West End''),
      get_road_for_cell = (\<lambda>la lo w. ''Oxford Street''),
      sample_bins = Inr [new_bin ''BIN00000'' 51.51 (- 0.15)], save_outputs = Inr ()\<rparr>"

definition full_disk_env :: environment where
  "full_disk_env = street_env\<lparr>sample_bins := Inl (OSError ''[Errno 28] No space left on device'')\<rparr>"

definition locked_disk_env :: environment where
  "locked_disk_env = street_env\<lparr>save_outputs := Inl (OSError ''[Errno 30] Read-only file system'')\<rparr>"

definition street_state :: analysis_state where
  "street_state = the (run_full_analysis street_env (initial_state\<lparr>st_config := one_cell_config\<rparr>))"

section \<open>Sensor placement: proofs\<close>

lemma update_at_index:
  "distinct (map fst al) \<Longrightarrow> i < length al \<Longrightarrow>
   AList.update (fst (al ! i)) v al = al[i := (fst (al ! i), v)]"
proof (induction al arbitrary: i)
  case Nil
  then show ?case by simp
next
  case (Cons p ps)
  show ?case
  proof (cases i)
    case 0
    then show ?thesis by simp
  next
    case (Suc j)
    with Cons.prems have j: "j < length ps" by simp
    from Cons.prems have np: "fst p \<notin> fst ` set ps" by simp
    from j have "ps ! j \<in> set ps" by simp
    with np have "fst p \<noteq> fst (ps ! j)" by (auto simp: image_iff)
    with Cons.prems Cons.IH [of j] Suc j show ?thesis by simp
  qed
qed

lemma map_of_nth:
  "distinct (map fst al) \<Longrightarrow> i < length al \<Longrightarrow> map_of al (fst (al ! i)) = Some (snd (al ! i))"
  by (simp add: map_of_eq_Some_iff)

lemma sum_list_update_int:
  "i < length xs \<Longrightarrow> sum_list (xs[i := v]) = sum_list xs - xs ! i + (v::int)"
  by (induction xs arbitrary: i) (auto split: nat.splits)

lemma sum_snd_update:
  "sum_list (map snd (AList.update k v d)) = sum_list (map snd d) - dict_get d k 0 + v"
  by (induction d) (auto simp: dict_get_def)

lemma count_categories_sum:
  "sum_list (map snd (count_categories bins as cc)) = sum_list (map snd cc) + int (length as)"
  by (induction as arbitrary: cc) (auto simp: sum_snd_update Let_def)

lemma count_categories_distinct:
  "distinct (map fst cc) \<Longrightarrow> distinct (map fst (count_categories bins as cc))"
  by (induction as arbitrary: cc) (auto simp: Let_def distinct_update)

lemma count_categories_map_of:
  "map_of (count_categories bins as cc) cat =
     (if cat \<in> fst ` set cc \<or> cat \<in> (\<lambda>a. bin_footfall_category (bins ! a)) ` set as
      then Some (dict_get cc cat 0
             + int (length (filter (\<lambda>a. bin_footfall_category (bins ! a) = cat) as)))
      else None)"
proof (induction as arbitrary: cc)
  case Nil
  show ?case
    by (auto simp: dict_get_def map_of_eq_None_iff split: option.splits)
next
  case (Cons a as)
  show ?case
    by (simp add: Cons.IH Let_def dom_update dict_get_def update_conv')
qed

lemma update_append_new: "k \<notin> fst ` set d \<Longrightarrow> AList.update k v d = d @ [(k, v)]"
  by (induction d) auto

lemma target_of_bounds: "min 20 c \<le> target_of n ts c \<and> target_of n ts c \<le> c"
  by (simp add: target_of_def)

lemma target_loop_eq:
  "ts \<noteq> 0 \<Longrightarrow> distinct (map fst items) \<Longrightarrow> fst ` set items \<inter> fst ` set tp = {} \<Longrightarrow>
   target_loop n ts items tp = Inr (tp @ map (\<lambda>(k, c). (k, target_of n ts c)) items)"
proof (induction items arbitrary: tp)
  case Nil
  then show ?case by simp
next
  case (Cons p items)
  obtain k c where p: "p = (k, c)" by (cases p)
  from Cons.prems p have knew: "k \<notin> fst ` set tp" by auto
  let ?tp = "tp @ [(k, target_of n ts c)]"
  have "fst ` set items \<inter> fst ` set ?tp = {}"
    using Cons.prems p by auto
  with Cons.IH [of ?tp] Cons.prems have
    "target_loop n ts items ?tp = Inr (?tp @ map (\<lambda>(k, c). (k, target_of n ts c)) items)"
    by simp
  with Cons.prems p knew show ?case
    by (simp add: update_append_new target_of_def Let_def)
qed

lemma fits_length: "fits tp cc \<Longrightarrow> length tp = length cc"
  unfolding fits_def by (metis length_map)

lemma fits_key: "fits tp cc \<Longrightarrow> i < length cc \<Longrightarrow> fst (tp ! i) = fst (cc ! i)"
  unfolding fits_def by (metis length_map nth_map)

lemma key_index: "k \<in> fst ` set cc \<Longrightarrow> \<exists>i<length cc. fst (cc ! i) = k"
  by (fastforce simp: in_set_conv_nth)

lemma fits_bump:
  assumes f: "fits tp cc" and i: "i < length cc" and lt: "snd (tp ! i) < snd (cc ! i)"
  shows "fits (AList.update (fst (cc ! i)) (snd (tp ! i) + 1) tp) cc"
    and "sum_list (map snd (AList.update (fst (cc ! i)) (snd (tp ! i) + 1) tp))
           = sum_list (map snd tp) + 1"
    and "\<forall>j<length cc. snd (tp ! j)
           \<le> snd (AList.update (fst (cc ! i)) (snd (tp ! i) + 1) tp ! j)"
proof -
  from f have len: "length tp = length cc" by (rule fits_length)
  from f have d: "distinct (map fst tp)" by (simp add: fits_def)
  from f i have k: "fst (tp ! i) = fst (cc ! i)" by (rule fits_key)
  from d i len have upd: "AList.update (fst (cc ! i)) (snd (tp ! i) + 1) tp
      = tp[i := (fst (cc ! i), snd (tp ! i) + 1)]"
    using update_at_index [of tp i "snd (tp ! i) + 1"] k by simp
  have mf: "map fst (tp[i := (fst (cc ! i), snd (tp ! i) + 1)]) = map fst tp"
    using i len k by (simp add: map_update list_update_same_conv)
  show "fits (AList.update (fst (cc ! i)) (snd (tp ! i) + 1) tp) cc"
    unfolding upd fits_def using f lt i len mf
    by (auto simp: fits_def nth_list_update)
  show "sum_list (map snd (AList.update (fst (cc ! i)) (snd (tp ! i) + 1) tp))
           = sum_list (map snd tp) + 1"
    unfolding upd using i len by (simp add: map_update sum_list_update_int)
  show "\<forall>j<length cc. snd (tp ! j)
           \<le> snd (AList.update (fst (cc ! i)) (snd (tp ! i) + 1) tp ! j)"
    unfolding upd using len i by (auto simp: nth_list_update)
qed

lemma fits_lookup:
  assumes f: "fits tp cc" and i: "i < length cc"
  shows "map_of tp (fst (cc ! i)) = Some (snd (tp ! i))"
    and "map_of cc (fst (cc ! i)) = Some (snd (cc ! i))"
proof -
  from f have len: "length tp = length cc" by (rule fits_length)
  from f have d: "distinct (map fst tp)" and d': "distinct (map fst cc)"
    by (simp_all add: fits_def)
  from f i have k: "fst (tp ! i) = fst (cc ! i)" by (rule fits_key)
  from d i len map_of_nth [of tp i] k show "map_of tp (fst (cc ! i)) = Some (snd (tp ! i))"
    by simp
  from d' i show "map_of cc (fst (cc ! i)) = Some (snd (cc ! i))" by (rule map_of_nth)
qed

lemma fits_index_unique:
  "fits tp cc \<Longrightarrow> i < length cc \<Longrightarrow> j < length cc \<Longrightarrow> fst (cc ! j) = fst (cc ! i) \<Longrightarrow> j = i"
  unfolding fits_def by (metis distinct_conv_nth length_map nth_map)

lemma adjust_pass_spec:
  assumes "fits tp cc" and "set cats \<subseteq> fst ` set cc"
  shows "\<exists>tp' tot'. adjust_pass n cc cats tp tot = Inr (tp', tot') \<and> fits tp' cc
     \<and> (\<forall>i<length cc. snd (tp ! i) \<le> snd (tp' ! i))
     \<and> tot' - tot = sum_list (map snd tp') - sum_list (map snd tp)
     \<and> tot \<le> tot' \<and> (tot < n \<longrightarrow> tot' \<le> n)
     \<and> ((\<exists>i<length cc. fst (cc ! i) \<in> set cats \<and> snd (tp ! i) < snd (cc ! i))
            \<longrightarrow> tot < tot')"
  using assms
proof (induction cats arbitrary: tp tot)
  case Nil
  then show ?case by simp
next
  case (Cons cat cats)
  from Cons.prems have "cat \<in> fst ` set cc" by simp
  from key_index [OF this] obtain i where i: "i < length cc" and ki: "fst (cc ! i) = cat"
    by auto
  note f = \<open>fits tp cc\<close>
  from fits_lookup [OF f i] ki
  have mt: "map_of tp cat = Some (snd (tp ! i))" and mc: "map_of cc cat = Some (snd (cc ! i))"
    by simp_all
  from Cons.prems have sub: "set cats \<subseteq> fst ` set cc" by simp
  show ?case
  proof (cases "snd (tp ! i) < snd (cc ! i)")
    case True
    let ?tp1 = "AList.update cat (snd (tp ! i) + 1) tp"
    from fits_bump [OF f i True] ki
    have f1: "fits ?tp1 cc"
      and s1: "sum_list (map snd ?tp1) = sum_list (map snd tp) + 1"
      and p1: "\<forall>j<length cc. snd (tp ! j) \<le> snd (?tp1 ! j)"
      by simp_all
    show ?thesis
    proof (cases "n \<le> tot + 1")
      case True
      with \<open>snd (tp ! i) < snd (cc ! i)\<close> mt mc f1 s1 p1 show ?thesis
        by (simp add: Let_def)
    next
      case False
      from Cons.IH [OF f1 sub, of "tot + 1"] obtain tp' tot' where
        r: "adjust_pass n cc cats ?tp1 (tot + 1) = Inr (tp', tot')" and f': "fits tp' cc"
        and p': "\<forall>i<length cc. snd (?tp1 ! i) \<le> snd (tp' ! i)"
        and d': "tot' - (tot + 1) = sum_list (map snd tp') - sum_list (map snd ?tp1)"
        and le': "tot + 1 \<le> tot'" and n': "tot + 1 < n \<longrightarrow> tot' \<le> n"
        by blast
      have res: "adjust_pass n cc (cat # cats) tp tot = Inr (tp', tot')"
        using \<open>snd (tp ! i) < snd (cc ! i)\<close> False mt mc r by (simp add: Let_def)
      have pw: "\<forall>i<length cc. snd (tp ! i) \<le> snd (tp' ! i)"
        using p1 p' by (meson order_trans)
      from res f' pw d' s1 le' n' False show ?thesis by auto
    qed
  next
    case False
    from Cons.IH [OF f sub, of tot] obtain tp' tot' where
      r: "adjust_pass n cc cats tp tot = Inr (tp', tot')" and f': "fits tp' cc"
      and p': "\<forall>i<length cc. snd (tp ! i) \<le> snd (tp' ! i)"
      and d': "tot' - tot = sum_list (map snd tp') - sum_list (map snd tp)"
      and le': "tot \<le> tot'" and n': "tot < n \<longrightarrow> tot' \<le> n"
      and pr: "(\<exists>i<length cc. fst (cc ! i) \<in> set cats \<and> snd (tp ! i) < snd (cc ! i))
                 \<longrightarrow> tot < tot'"
      by blast
    have res: "adjust_pass n cc (cat # cats) tp tot = Inr (tp', tot')"
      using False mt mc r by simp
    have room: "tot < tot'"
      if "\<exists>j<length cc. fst (cc ! j) \<in> set (cat # cats) \<and> snd (tp ! j) < snd (cc ! j)"
    proof -
      from that obtain j where j: "j < length cc" and kj: "fst (cc ! j) \<in> set (cat # cats)"
        and rj: "snd (tp ! j) < snd (cc ! j)" by blast
      have "fst (cc ! j) \<noteq> cat"
      proof
        assume "fst (cc ! j) = cat"
        with ki have "fst (cc ! j) = fst (cc ! i)" by simp
        with f i j have "j = i" by (rule fits_index_unique)
        with rj False show False by simp
      qed
      with kj have "fst (cc ! j) \<in> set cats" by simp
      with j rj pr show ?thesis by blast
    qed
    from res f' p' d' le' n' room show ?thesis by blast
  qed
qed

lemma fits_room:
  assumes f: "fits tp cc" and lt: "sum_list (map snd tp) < sum_list (map snd cc)"
  shows "\<exists>i<length cc. snd (tp ! i) < snd (cc ! i)"
proof (rule ccontr)
  assume "\<not> ?thesis"
  then have ge: "\<forall>i<length cc. snd (cc ! i) \<le> snd (tp ! i)" by (meson not_le_imp_less)
  from f have len: "length tp = length cc" by (rule fits_length)
  have "sum_list (map snd cc) \<le> sum_list (map snd tp)"
    using len ge
  proof (induction cc tp rule: list_induct2')
    case (4 x xs y ys)
    from 4(2) have l: "length ys = length xs" by simp
    from 4(3) have h: "snd x \<le> snd y" by auto
    from 4(3) have "\<forall>i<length xs. snd (xs ! i) \<le> snd (ys ! i)" by auto
    with 4(1) l have "sum_list (map snd xs) \<le> sum_list (map snd ys)" by simp
    with h show ?case by simp
  qed simp_all
  with lt show False by simp
qed

lemma fits_full:
  assumes f: "fits tp cc" and ge: "sum_list (map snd cc) \<le> sum_list (map snd tp)"
  shows "tp = cc"
proof -
  from f have len: "length tp = length cc" by (rule fits_length)
  from f have keys: "map fst tp = map fst cc" by (simp add: fits_def)
  from f have le: "\<forall>i<length cc. snd (tp ! i) \<le> snd (cc ! i)" by (simp add: fits_def)
  have "map snd tp = map snd cc"
    using len le ge
  proof (induction tp cc rule: list_induct2')
    case (4 x xs y ys)
    from 4(2) have l: "length xs = length ys" by simp
    from 4(3) have h: "snd x \<le> snd y" by auto
    from 4(3) have t: "\<forall>i<length ys. snd (xs ! i) \<le> snd (ys ! i)" by auto
    have "sum_list (map snd xs) \<le> sum_list (map snd ys)"
      using l t
    proof (induction xs ys rule: list_induct2')
      case (4 a as b bs)
      from 4(3) have "snd a \<le> snd b" by auto
      moreover from 4(3) have "\<forall>i<length bs. snd (as ! i) \<le> snd (bs ! i)" by auto
      ultimately show ?case using 4(1) 4(2) by simp
    qed simp_all
    with 4(4) h have hx: "snd x = snd y" and "sum_list (map snd ys) \<le> sum_list (map snd xs)"
      by simp_all
    with 4(1) l t have "map snd xs = map snd ys" by simp
    with hx show ?case by simp
  qed simp_all
  with keys show ?thesis by (metis zip_map_fst_snd)
qed

lemma adjust_loop_spec:
  assumes "fits tp cc" and "tot = sum_list (map snd tp)" and "n \<le> sum_list (map snd cc)"
  shows "\<exists>tp'. adjust_loop n cc tp tot = Some (Inr (tp', sum_list (map snd tp'))) \<and> fits tp' cc
     \<and> (\<forall>i<length cc. snd (tp ! i) \<le> snd (tp' ! i))
     \<and> sum_list (map snd tp') = max n tot"
  using assms
proof (induction "nat (n - tot)" arbitrary: tp tot rule: less_induct)
  case less
  note f = \<open>fits tp cc\<close>
  show ?case
  proof (cases "tot < n")
    case False
    with less.prems show ?thesis
      by (subst adjust_loop.simps) simp
  next
    case True
    with less.prems have "sum_list (map snd tp) < sum_list (map snd cc)" by simp
    with f obtain i where i: "i < length cc" and ri: "snd (tp ! i) < snd (cc ! i)"
      using fits_room by blast
    let ?cats = "sort (map fst tp)"
    from f have keys: "set ?cats = fst ` set cc"
      by (metis fits_def set_map set_sort)
    with i have "fst (cc ! i) \<in> set ?cats" by simp
    with i ri have room: "\<exists>i<length cc. fst (cc ! i) \<in> set ?cats \<and> snd (tp ! i) < snd (cc ! i)"
      by blast
    from keys have sub: "set ?cats \<subseteq> fst ` set cc" by simp
    from adjust_pass_spec [OF f sub, of n tot] room obtain tp1 tot1 where
      r: "adjust_pass n cc ?cats tp tot = Inr (tp1, tot1)" and f1: "fits tp1 cc"
      and p1: "\<forall>i<length cc. snd (tp ! i) \<le> snd (tp1 ! i)"
      and d1: "tot1 - tot = sum_list (map snd tp1) - sum_list (map snd tp)"
      and n1: "tot < n \<longrightarrow> tot1 \<le> n" and lt1: "tot < tot1"
      by blast
    from d1 less.prems have t1: "tot1 = sum_list (map snd tp1)" by simp
    from lt1 True have m: "nat (n - tot1) < nat (n - tot)" by simp
    from less.hyps [OF m f1 t1 less.prems(3)] obtain tp' where
      r': "adjust_loop n cc tp1 tot1 = Some (Inr (tp', sum_list (map snd tp')))"
      and f': "fits tp' cc" and p': "\<forall>i<length cc. snd (tp1 ! i) \<le> snd (tp' ! i)"
      and s': "sum_list (map snd tp') = max n tot1"
      by blast
    have res: "adjust_loop n cc tp tot = Some (Inr (tp', sum_list (map snd tp')))"
      using True r r' by (subst adjust_loop.simps) simp
    have pw: "\<forall>i<length cc. snd (tp ! i) \<le> snd (tp' ! i)"
      using p1 p' by (meson order_trans)
    from s' n1 True lt1 have "sum_list (map snd tp') = max n tot" by simp
    with res f' pw show ?thesis by blast
  qed
qed

lemma selected_indices_foldl:
  "foldl (\<lambda>sel i. if int (length sel) < target then sel @ [i] else sel) acc xs
     = acc @ take (nat target - length acc) xs"
proof (induction xs arbitrary: acc)
  case Nil
  show ?case by simp
next
  case (Cons x xs)
  show ?case
  proof (cases "int (length acc) < target")
    case True
    then have "nat target - length acc = Suc (nat target - Suc (length acc))" by linarith
    with True Cons.IH [of "acc @ [x]"] show ?thesis by simp
  next
    case False
    then have "nat target - length acc = 0" by linarith
    with False Cons.IH [of acc] show ?thesis by simp
  qed
qed

lemma selected_indices_take:
  "selected_indices n step target = take (nat target) (py_range_step n step)"
  by (simp add: selected_indices_def selected_indices_foldl)

lemma py_range_step_less:
  assumes "0 < step" and "i \<in> set (py_range_step n step)"
  shows "i < n"
proof -
  from assms obtain k where k: "k < (n + step - 1) div step" and i: "i = k * step"
    by (auto simp: py_range_step_def)
  from k have "Suc k \<le> (n + step - 1) div step" by simp
  then have "Suc k * step \<le> n + step - 1"
    using assms(1) by (simp add: less_eq_div_iff_mult_less_eq)
  with assms(1) i show ?thesis by simp
qed

lemma py_range_step_distinct: "0 < step \<Longrightarrow> distinct (py_range_step n step)"
  by (simp add: py_range_step_def distinct_map inj_on_def)

lemma py_range_step_one: "py_range_step n 1 = [0..<n]"
  by (simp add: py_range_step_def)

lemma py_range_step_length: "length (py_range_step n step) = (n + step - 1) div step"
  by (simp add: py_range_step_def)

lemma stride_enough:
  assumes "1 \<le> t" and "t \<le> int n"
  shows "nat t \<le> (n + nat (max 1 (int n div t)) - 1) div nat (max 1 (int n div t))"
    and "0 < nat (max 1 (int n div t))"
proof -
  let ?s = "nat (max 1 (int n div t))"
  show pos: "0 < ?s" by simp
  from assms have tpos: "0 < t" by simp
  with assms have "0 < int n div t" by (simp add: pos_imp_zdiv_pos_iff)
  then have s: "int ?s = int n div t" by simp
  have "t * (int n div t) + int n mod t = int n" by (rule mult_div_mod_eq)
  moreover from tpos have "0 \<le> int n mod t" by simp
  ultimately have "t * (int n div t) \<le> int n" by linarith
  then have "int ?s * t \<le> int n" unfolding s by (simp only: mult.commute)
  moreover from tpos have "int (?s * nat t) = int ?s * t" by simp
  ultimately have "int (?s * nat t) \<le> int n" by simp
  then have "?s * nat t \<le> n" by (simp only: of_nat_le_iff)
  then have "nat t * ?s \<le> n" by (simp only: mult.commute)
  moreover from pos have "n \<le> n + ?s - 1" by linarith
  ultimately have "nat t * ?s \<le> n + ?s - 1" by (rule order_trans)
  then show "nat t \<le> (n + ?s - 1) div ?s"
    using pos by (simp add: less_eq_div_iff_mult_less_eq)
qed

lemma mark_selected_spec:
  assumes "distinct as" and "\<forall>a\<in>set as. a < length bins"
  shows "\<exists>bins'. mark_selected as (bins, sel, rank) = (bins', sel @ as, rank + int (length as))
     \<and> length bins' = length bins
     \<and> (\<forall>j<length as. bins' ! (as ! j)
            = (bins ! (as ! j))\<lparr>selected_for_sensor := True, selection_rank := rank + int j\<rparr>)
     \<and> (\<forall>i. i \<notin> set as \<longrightarrow> bins' ! i = bins ! i)"
  using assms
proof (induction as arbitrary: bins sel rank)
  case Nil
  then show ?case by simp
next
  case (Cons a as)
  let ?b1 = "bins[a := (bins ! a)\<lparr>selected_for_sensor := True, selection_rank := rank\<rparr>]"
  from Cons.prems have d: "distinct as" and na: "a \<notin> set as" and la: "a < length bins"
    and b: "\<forall>x\<in>set as. x < length ?b1" by simp_all
  from Cons.IH [OF d b, of "sel @ [a]" "rank + 1"] obtain bins' where
    r: "mark_selected as (?b1, sel @ [a], rank + 1)
          = (bins', (sel @ [a]) @ as, rank + 1 + int (length as))"
    and l: "length bins' = length ?b1"
    and m: "\<forall>j<length as. bins' ! (as ! j)
            = (?b1 ! (as ! j))\<lparr>selected_for_sensor := True, selection_rank := rank + 1 + int j\<rparr>"
    and u: "\<forall>i. i \<notin> set as \<longrightarrow> bins' ! i = ?b1 ! i"
    by blast
  have res: "mark_selected (a # as) (bins, sel, rank)
      = (bins', sel @ a # as, rank + int (length (a # as)))"
    using r by simp
  have marked: "bins' ! ((a # as) ! j)
      = (bins ! ((a # as) ! j))\<lparr>selected_for_sensor := True, selection_rank := rank + int j\<rparr>"
    if "j < length (a # as)" for j
  proof (cases j)
    case 0
    with u na la show ?thesis by simp
  next
    case (Suc j')
    with that have j': "j' < length as" by simp
    then have "as ! j' \<in> set as" by simp
    with na have "as ! j' \<noteq> a" by blast
    with m j' Suc show ?thesis by (simp add: add.commute add.left_commute)
  qed
  have unch: "bins' ! i = bins ! i" if "i \<notin> set (a # as)" for i
    using that u by simp
  from res l marked unch show ?case by auto
qed

lemma select_all_spec:
  assumes "distinct as" and "\<forall>a\<in>set as. a < length bins"
  shows "length (select_all k as bins) = length bins
     \<and> (\<forall>j<length as. select_all k as bins ! (as ! j)
            = (bins ! (as ! j))\<lparr>selected_for_sensor := True,
                                 selection_rank := int k + 1 + int j\<rparr>)
     \<and> (\<forall>i. i \<notin> set as \<longrightarrow> select_all k as bins ! i = bins ! i)"
  using assms
proof (induction as arbitrary: bins k)
  case Nil
  then show ?case by simp
next
  case (Cons a as)
  let ?b1 = "bins[a := (bins ! a)\<lparr>selected_for_sensor := True, selection_rank := int k + 1\<rparr>]"
  from Cons.prems have d: "distinct as" and na: "a \<notin> set as" and la: "a < length bins"
    and b: "\<forall>x\<in>set as. x < length ?b1" by simp_all
  from Cons.IH [OF d b, of "k + 1"] have
    l: "length (select_all (k + 1) as ?b1) = length ?b1"
    and m: "\<forall>j<length as. select_all (k + 1) as ?b1 ! (as ! j)
            = (?b1 ! (as ! j))\<lparr>selected_for_sensor := True,
                                selection_rank := int (k + 1) + 1 + int j\<rparr>"
    and u: "\<forall>i. i \<notin> set as \<longrightarrow> select_all (k + 1) as ?b1 ! i = ?b1 ! i"
    by blast+
  have marked: "select_all k (a # as) bins ! ((a # as) ! j)
      = (bins ! ((a # as) ! j))\<lparr>selected_for_sensor := True,
                                  selection_rank := int k + 1 + int j\<rparr>"
    if "j < length (a # as)" for j
  proof (cases j)
    case 0
    with u na la show ?thesis by simp
  next
    case (Suc j')
    with that have j': "j' < length as" by simp
    then have "as ! j' \<in> set as" by simp
    with na have "as ! j' \<noteq> a" by blast
    with m j' Suc show ?thesis by (simp add: add.commute add.left_commute)
  qed
  have unch: "select_all k (a # as) bins ! i = bins ! i" if "i \<notin> set (a # as)" for i
    using that u by simp
  from l marked unch show ?case by auto
qed

lemma placed_fields:
  assumes "placed bins0 bins sel"
  shows "bin_lat (bins ! i) = bin_lat (bins0 ! i)"
    and "bin_lon (bins ! i) = bin_lon (bins0 ! i)"
    and "bin_footfall_category (bins ! i) = bin_footfall_category (bins0 ! i)"
proof -
  have "\<exists>s r. bins ! i = (bins0 ! i)\<lparr>selected_for_sensor := s, selection_rank := r\<rparr>"
  proof (cases "i \<in> set sel")
    case True
    then obtain j where "j < length sel" and "sel ! j = i" by (auto simp: in_set_conv_nth)
    with assms show ?thesis unfolding placed_def by blast
  next
    case False
    with assms have "bins ! i = bins0 ! i" unfolding placed_def by blast
    then have "bins ! i = (bins0 ! i)\<lparr>selected_for_sensor := selected_for_sensor (bins0 ! i),
        selection_rank := selection_rank (bins0 ! i)\<rparr>" by simp
    then show ?thesis by blast
  qed
  then obtain s r where e: "bins ! i = (bins0 ! i)\<lparr>selected_for_sensor := s, selection_rank := r\<rparr>"
    by blast
  show "bin_lat (bins ! i) = bin_lat (bins0 ! i)" by (simp add: e)
  show "bin_lon (bins ! i) = bin_lon (bins0 ! i)" by (simp add: e)
  show "bin_footfall_category (bins ! i) = bin_footfall_category (bins0 ! i)" by (simp add: e)
qed

lemma cat_bins_of_placed:
  "placed bins0 bins sel \<Longrightarrow> cat_bins_of bins assigned cat = cat_bins_of bins0 assigned cat"
  by (simp add: cat_bins_of_def placed_fields)

lemma cat_bins_of_set:
  "set (cat_bins_of bins assigned cat)
     = {a \<in> set assigned. bin_footfall_category (bins ! a) = cat}"
  by (auto simp: cat_bins_of_def)

lemma cat_bins_of_distinct: "distinct assigned \<Longrightarrow> distinct (cat_bins_of bins assigned cat)"
  by (simp add: cat_bins_of_def)

lemma cat_bins_of_length:
  "length (cat_bins_of bins assigned cat)
     = length (filter (\<lambda>a. bin_footfall_category (bins ! a) = cat) assigned)"
  by (simp add: cat_bins_of_def)

lemma picks_props:
  assumes "distinct assigned"
  shows "distinct (picks bins0 assigned tp cat)"
    and "set (picks bins0 assigned tp cat)
           \<subseteq> {a \<in> set assigned. bin_footfall_category (bins0 ! a) = cat}"
proof -
  let ?cb = "cat_bins_of bins0 assigned cat"
  let ?t = "the (map_of tp cat)"
  let ?s = "nat (max 1 (int (length ?cb) div ?t))"
  let ?ix = "selected_indices (length ?cb) ?s ?t"
  have pos: "0 < ?s" by simp
  have ix: "?ix = take (nat ?t) (py_range_step (length ?cb) ?s)"
    by (rule selected_indices_take)
  have dix: "distinct ?ix" unfolding ix using pos
    by (intro distinct_take py_range_step_distinct)
  have lix: "\<forall>i\<in>set ?ix. i < length ?cb"
    unfolding ix using pos py_range_step_less [of ?s _ "length ?cb"]
    by (meson in_set_takeD)
  from assms have dcb: "distinct ?cb" by (rule cat_bins_of_distinct)
  have inj: "inj_on (\<lambda>i. ?cb ! i) (set ?ix)"
    using dcb lix by (auto simp: inj_on_def nth_eq_iff_index_eq)
  show "distinct (picks bins0 assigned tp cat)"
    unfolding picks_def Let_def using dix inj by (simp add: distinct_map)
  have "set (picks bins0 assigned tp cat) \<subseteq> set ?cb"
    unfolding picks_def Let_def using lix by auto
  then show "set (picks bins0 assigned tp cat)
           \<subseteq> {a \<in> set assigned. bin_footfall_category (bins0 ! a) = cat}"
    by (simp add: cat_bins_of_set)
qed

lemma placed_extend:
  assumes p: "placed bins0 bins sel"
    and das: "distinct as" and las: "\<forall>a\<in>set as. a < length bins0"
    and disj: "set sel \<inter> set as = {}"
    and len: "length bins1 = length bins"
    and m: "\<forall>j<length as. bins1 ! (as ! j)
        = (bins ! (as ! j))\<lparr>selected_for_sensor := True,
                             selection_rank := int (length sel) + 1 + int j\<rparr>"
    and u: "\<forall>i. i \<notin> set as \<longrightarrow> bins1 ! i = bins ! i"
  shows "placed bins0 bins1 (sel @ as)"
proof -
  from p have l0: "length bins = length bins0" and ds: "distinct sel"
    and ls: "\<forall>a\<in>set sel. a < length bins0"
    and ms: "\<forall>j<length sel. bins ! (sel ! j)
        = (bins0 ! (sel ! j))\<lparr>selected_for_sensor := True, selection_rank := int j + 1\<rparr>"
    and us: "\<forall>i. i \<notin> set sel \<longrightarrow> bins ! i = bins0 ! i"
    unfolding placed_def by blast+
  have marked: "bins1 ! ((sel @ as) ! j)
      = (bins0 ! ((sel @ as) ! j))\<lparr>selected_for_sensor := True, selection_rank := int j + 1\<rparr>"
    if j: "j < length (sel @ as)" for j
  proof (cases "j < length sel")
    case True
    then have "sel ! j \<in> set sel" by simp
    with disj have "sel ! j \<notin> set as" by blast
    with u have "bins1 ! (sel ! j) = bins ! (sel ! j)" by blast
    with ms True show ?thesis by (simp add: nth_append)
  next
    case False
    let ?k = "j - length sel"
    from False j have k: "?k < length as" by simp
    then have "as ! ?k \<in> set as" by simp
    with disj have "as ! ?k \<notin> set sel" by blast
    with us have "bins ! (as ! ?k) = bins0 ! (as ! ?k)" by blast
    moreover from False have "int (length sel) + 1 + int ?k = int j + 1" by simp
    ultimately show ?thesis using m k False by (simp add: nth_append)
  qed
  have unch: "bins1 ! i = bins0 ! i" if "i \<notin> set (sel @ as)" for i
    using that u us by simp
  from ds das disj have "distinct (sel @ as)" by simp
  moreover from ls las have "\<forall>a\<in>set (sel @ as). a < length bins0" by auto
  moreover from len l0 have "length bins1 = length bins0" by simp
  ultimately show ?thesis unfolding placed_def using marked unch by blast
qed

lemma select_loop_spec:
  assumes "placed bins0 bins sel" and "rank = int (length sel) + 1"
    and "distinct cats" and "set cats \<subseteq> fst ` set tp"
    and "\<forall>k t. map_of tp k = Some t \<longrightarrow> t \<noteq> 0"
    and "distinct assigned" and "\<forall>a\<in>set assigned. a < length bins0"
    and "\<forall>a\<in>set sel. bin_footfall_category (bins0 ! a) \<notin> set cats"
  shows "\<exists>bins' rank'. select_loop tp assigned cats (bins, sel, rank)
        = Inr (bins', sel @ concat (map (picks bins0 assigned tp) cats), rank')
     \<and> placed bins0 bins' (sel @ concat (map (picks bins0 assigned tp) cats))"
  using assms(1,2,3,4,8)
proof (induction cats arbitrary: bins sel rank)
  case Nil
  then show ?case by simp
next
  case (Cons cat cats)
  note p = \<open>placed bins0 bins sel\<close>
  from Cons.prems have "cat \<in> fst ` set tp" by simp
  then obtain t where t: "map_of tp cat = Some t"
    by (metis map_of_eq_None_iff not_Some_eq)
  with assms(5) have t0: "t \<noteq> 0" by blast
  let ?as = "picks bins0 assigned tp cat"
  from picks_props [OF assms(6), of bins0 tp cat]
  have das: "distinct ?as"
    and sas: "set ?as \<subseteq> {a \<in> set assigned. bin_footfall_category (bins0 ! a) = cat}"
    by simp_all
  from sas assms(7) have las0: "\<forall>a\<in>set ?as. a < length bins0" by blast
  from p have l0: "length bins = length bins0" by (simp add: placed_def)
  with las0 have las: "\<forall>a\<in>set ?as. a < length bins" by simp
  have disj: "set sel \<inter> set ?as = {}"
    using sas Cons.prems(5) by auto
  from mark_selected_spec [OF das las, of sel rank] obtain bins1 where
    r1: "mark_selected ?as (bins, sel, rank) = (bins1, sel @ ?as, rank + int (length ?as))"
    and l1: "length bins1 = length bins"
    and m1: "\<forall>j<length ?as. bins1 ! (?as ! j)
        = (bins ! (?as ! j))\<lparr>selected_for_sensor := True, selection_rank := rank + int j\<rparr>"
    and u1: "\<forall>i. i \<notin> set ?as \<longrightarrow> bins1 ! i = bins ! i"
    by blast
  from m1 Cons.prems(2) have m1': "\<forall>j<length ?as. bins1 ! (?as ! j)
        = (bins ! (?as ! j))\<lparr>selected_for_sensor := True,
                              selection_rank := int (length sel) + 1 + int j\<rparr>"
    by simp
  have p1: "placed bins0 bins1 (sel @ ?as)"
    by (rule placed_extend [OF p das las0 disj l1 m1' u1])
  have rk: "rank + int (length ?as) = int (length (sel @ ?as)) + 1"
    using Cons.prems(2) by simp
  from Cons.prems(3) have dc: "distinct cats" and cn: "cat \<notin> set cats" by simp_all
  from Cons.prems(4) have sc: "set cats \<subseteq> fst ` set tp" by simp
  have nc: "\<forall>a\<in>set (sel @ ?as). bin_footfall_category (bins0 ! a) \<notin> set cats"
    using Cons.prems(5) sas cn by auto
  from Cons.IH [OF p1 rk dc sc nc] obtain bins' rank' where
    r': "select_loop tp assigned cats (bins1, sel @ ?as, rank + int (length ?as))
        = Inr (bins', (sel @ ?as) @ concat (map (picks bins0 assigned tp) cats), rank')"
    and p': "placed bins0 bins' ((sel @ ?as) @ concat (map (picks bins0 assigned tp) cats))"
    by blast
  have cb: "cat_bins_of bins assigned cat = cat_bins_of bins0 assigned cat"
    using p by (rule cat_bins_of_placed)
  have "select_loop tp assigned (cat # cats) (bins, sel, rank)
      = select_loop tp assigned cats (mark_selected ?as (bins, sel, rank))"
    using t t0 cb by (simp add: Let_def picks_def)
  with r1 r' have "select_loop tp assigned (cat # cats) (bins, sel, rank)
      = Inr (bins', sel @ concat (map (picks bins0 assigned tp) (cat # cats)), rank')"
    by simp
  moreover from p' have "placed bins0 bins' (sel @ concat (map (picks bins0 assigned tp) (cat # cats)))"
    by simp
  ultimately show ?case by blast
qed

lemma assigned_bins_props:
  "distinct (assigned_bins bins)" "\<forall>a\<in>set (assigned_bins bins). a < length bins"
  by (simp_all add: assigned_bins_def)

lemma placed_select_all:
  "placed bins (select_all 0 (assigned_bins bins) bins) (assigned_bins bins)"
  using select_all_spec [OF assigned_bins_props, where k = 0] assigned_bins_props [of bins]
  unfolding placed_def by simp

lemma sum_list_sqrt_pos:
  "cc \<noteq> [] \<Longrightarrow> \<forall>p\<in>set cc. 1 \<le> snd p \<Longrightarrow> 0 < (\<Sum>c\<leftarrow>map snd cc. sqrt (real_of_int c))"
proof (induction cc)
  case Nil
  then show ?case by simp
next
  case (Cons p cc)
  from Cons.prems have "0 < sqrt (real_of_int (snd p))" by simp
  moreover have "0 \<le> (\<Sum>c\<leftarrow>map snd cc. sqrt (real_of_int c))"
  proof (cases "cc = []")
    case True
    then show ?thesis by simp
  next
    case False
    with Cons show ?thesis by simp
  qed
  ultimately have "0 < sqrt (real_of_int (snd p)) + (\<Sum>c\<leftarrow>map snd cc. sqrt (real_of_int c))"
    by (rule add_pos_nonneg)
  then show ?case by simp
qed

lemma count_categories_values:
  assumes "p \<in> set (count_categories bins as [])"
  shows "snd p = int (length (filter (\<lambda>a. bin_footfall_category (bins ! a) = fst p) as))"
    and "1 \<le> snd p"
proof -
  let ?cc = "count_categories bins as []"
  have d: "distinct (map fst ?cc)" by (rule count_categories_distinct) simp
  from assms have "(fst p, snd p) \<in> set ?cc" by simp
  with d have m: "map_of ?cc (fst p) = Some (snd p)" by (rule map_of_is_SomeI)
  then have mem: "fst p \<in> (\<lambda>a. bin_footfall_category (bins ! a)) ` set as"
    by (simp add: count_categories_map_of split: if_splits)
  from m show v: "snd p = int (length (filter (\<lambda>a. bin_footfall_category (bins ! a) = fst p) as))"
    by (simp add: count_categories_map_of dict_get_def split: if_splits)
  from mem have "filter (\<lambda>a. bin_footfall_category (bins ! a) = fst p) as \<noteq> []"
    by (auto simp: filter_empty_conv)
  with v show "1 \<le> snd p"
    by (cases "filter (\<lambda>a. bin_footfall_category (bins ! a) = fst p) as") simp_all
qed

lemma count_categories_keys:
  "fst ` set (count_categories bins as []) = (\<lambda>a. bin_footfall_category (bins ! a)) ` set as"
proof -
  have "k \<in> fst ` set (count_categories bins as [])
      \<longleftrightarrow> k \<in> (\<lambda>a. bin_footfall_category (bins ! a)) ` set as" for k
  proof -
    have "k \<in> fst ` set (count_categories bins as [])
        \<longleftrightarrow> map_of (count_categories bins as []) k \<noteq> None"
      by (simp add: map_of_eq_None_iff)
    also have "\<dots> \<longleftrightarrow> k \<in> (\<lambda>a. bin_footfall_category (bins ! a)) ` set as"
      by (simp add: count_categories_map_of)
    finally show ?thesis .
  qed
  then show ?thesis by blast
qed

lemma target_loop_total:
  assumes d: "distinct (map fst cc)" and v: "\<forall>p\<in>set cc. 1 \<le> snd p"
  shows "target_loop n (\<Sum>c\<leftarrow>map snd cc. sqrt (real_of_int c)) cc []
      = Inr (map (\<lambda>(k, c). (k, target_of n (\<Sum>c\<leftarrow>map snd cc. sqrt (real_of_int c)) c)) cc)"
proof (cases "cc = []")
  case True
  then show ?thesis by simp
next
  case False
  from False v have "0 < (\<Sum>c\<leftarrow>map snd cc. sqrt (real_of_int c))" by (rule sum_list_sqrt_pos)
  then have "(\<Sum>c\<leftarrow>map snd cc. sqrt (real_of_int c)) \<noteq> 0" by simp
  from target_loop_eq [OF this d, of "[]" n] show ?thesis by simp
qed

lemma targets_fit:
  assumes d: "distinct (map fst cc)" and v: "\<forall>p\<in>set cc. 1 \<le> snd p"
  shows "fits (map (\<lambda>(k, c). (k, target_of n ts c)) cc) cc"
    and "\<forall>i<length cc. 1 \<le> snd (map (\<lambda>(k, c). (k, target_of n ts c)) cc ! i)"
proof -
  let ?tp = "map (\<lambda>(k, c). (k, target_of n ts c)) cc"
  have k: "map fst ?tp = map fst cc" by (induction cc) auto
  have s: "snd (?tp ! i) = target_of n ts (snd (cc ! i))" if "i < length cc" for i
    using that by (simp add: case_prod_beta)
  show "fits ?tp cc"
    unfolding fits_def using k d s target_of_bounds by simp
  show "\<forall>i<length cc. 1 \<le> snd (?tp ! i)"
  proof (intro allI impI)
    fix i assume i: "i < length cc"
    with v have "1 \<le> snd (cc ! i)" by simp
    then have "1 \<le> min 20 (snd (cc ! i))" by simp
    also have "\<dots> \<le> target_of n ts (snd (cc ! i))" using target_of_bounds by blast
    finally show "1 \<le> snd (?tp ! i)" using s i by simp
  qed
qed

lemma picks_full:
  assumes d: "distinct (map fst cc)" and cc: "cc = count_categories bins assigned []"
    and k: "cat \<in> fst ` set cc"
  shows "picks bins assigned cc cat = cat_bins_of bins assigned cat"
proof -
  let ?cb = "cat_bins_of bins assigned cat"
  from k obtain c where mem: "(cat, c) \<in> set cc" by auto
  with d have m: "map_of cc cat = Some c" by (rule map_of_is_SomeI)
  from count_categories_values [of "(cat, c)" bins assigned] mem cc
  have c: "c = int (length ?cb)" and c1: "1 \<le> c"
    by (simp_all add: cat_bins_of_length)
  from c1 have "c div c = 1" by simp
  then have st: "nat (max 1 (int (length ?cb) div c)) = 1" unfolding c [symmetric] by simp
  have "selected_indices (length ?cb) 1 c = [0..<length ?cb]"
    by (simp add: selected_indices_take py_range_step_def c)
  with m st show ?thesis
    by (simp add: picks_def Let_def map_nth)
qed

lemma optimize_spec:
  "\<exists>bins' sel. optimize_sensor_placement bins n k = Some (Inr (bins', sel))
     \<and> placed bins bins' sel \<and> set sel \<subseteq> set (assigned_bins bins)
     \<and> (int (length (assigned_bins bins)) \<le> n \<longrightarrow> set sel = set (assigned_bins bins))"
proof (cases "int (length (assigned_bins bins)) < n")
  case True
  then have "optimize_sensor_placement bins n k
      = Some (Inr (select_all 0 (assigned_bins bins) bins, assigned_bins bins))"
    by (simp add: optimize_sensor_placement_def Let_def)
  with placed_select_all show ?thesis by blast
next
  case False
  let ?A = "assigned_bins bins"
  let ?cc = "count_categories bins ?A []"
  let ?ts = "\<Sum>c\<leftarrow>map snd ?cc. sqrt (real_of_int c)"
  let ?tp = "map (\<lambda>(k, c). (k, target_of n ?ts c)) ?cc"
  have d: "distinct (map fst ?cc)" by (rule count_categories_distinct) simp
  have v: "\<forall>p\<in>set ?cc. 1 \<le> snd p" using count_categories_values(2) by blast
  have sum: "sum_list (map snd ?cc) = int (length ?A)" by (simp add: count_categories_sum)
  have tl: "target_loop n ?ts ?cc [] = Inr ?tp" using d v by (rule target_loop_total)
  from targets_fit [OF d v, of n ?ts]
  have f: "fits ?tp ?cc" and t1: "\<forall>i<length ?cc. 1 \<le> snd (?tp ! i)" by simp_all
  from False sum have le: "n \<le> sum_list (map snd ?cc)" by simp
  from adjust_loop_spec [OF f refl le] obtain tp' where
    al: "adjust_loop n ?cc ?tp (sum_list (map snd ?tp)) = Some (Inr (tp', sum_list (map snd tp')))"
    and f': "fits tp' ?cc" and pw: "\<forall>i<length ?cc. snd (?tp ! i) \<le> snd (tp' ! i)"
    and s': "sum_list (map snd tp') = max n (sum_list (map snd ?tp))"
    by blast
  from f' have keys: "map fst tp' = map fst ?cc" and len: "length tp' = length ?cc"
    by (simp_all add: fits_def fits_length)
  have nz: "\<forall>k t. map_of tp' k = Some t \<longrightarrow> t \<noteq> 0"
  proof (intro allI impI)
    fix k t assume "map_of tp' k = Some t"
    then have "(k, t) \<in> set tp'" by (rule map_of_SomeD)
    then obtain i where i: "i < length tp'" and e: "tp' ! i = (k, t)"
      by (auto simp: in_set_conv_nth)
    from i len have i': "i < length ?cc" by simp
    from t1 i' have a: "1 \<le> snd (?tp ! i)" by blast
    from pw i' have b: "snd (?tp ! i) \<le> snd (tp' ! i)" by blast
    from a b have "1 \<le> snd (tp' ! i)" by (rule order_trans)
    with e show "t \<noteq> 0" by simp
  qed
  let ?cats = "sort (map fst tp')"
  have p0: "placed bins bins []" by (simp add: placed_def)
  have dc: "distinct ?cats" using d keys by simp
  have sc: "set ?cats \<subseteq> fst ` set tp'" by simp
  from select_loop_spec [OF p0 _ dc sc nz assigned_bins_props, of 1] obtain bins' rank' where
    sl: "select_loop tp' ?A ?cats (bins, [], 1)
        = Inr (bins', [] @ concat (map (picks bins ?A tp') ?cats), rank')"
    and p': "placed bins bins' ([] @ concat (map (picks bins ?A tp') ?cats))"
    by auto
  let ?sel = "concat (map (picks bins ?A tp') ?cats)"
  have res: "optimize_sensor_placement bins n k = Some (Inr (bins', ?sel))"
    using False tl al sl by (simp add: optimize_sensor_placement_def Let_def)
  have sub: "set ?sel \<subseteq> set ?A"
    using picks_props(2) [OF assigned_bins_props(1), of bins bins tp'] by auto
  have full: "set ?sel = set ?A" if "int (length ?A) \<le> n"
  proof -
    from that False have "n = int (length ?A)" by simp
    with s' sum have "sum_list (map snd ?cc) \<le> sum_list (map snd tp')" by simp
    with f' have e: "tp' = ?cc" by (rule fits_full)
    have "set ?A \<subseteq> set ?sel"
    proof
      fix a assume a: "a \<in> set ?A"
      let ?c = "bin_footfall_category (bins ! a)"
      from a have kc: "?c \<in> fst ` set ?cc" by (simp add: count_categories_keys)
      with e have mem: "?c \<in> set ?cats" by simp
      have pk: "picks bins ?A tp' ?c = cat_bins_of bins ?A ?c"
        unfolding e using d refl kc by (rule picks_full)
      from a have "a \<in> set (cat_bins_of bins ?A ?c)" by (simp add: cat_bins_of_set)
      with pk have "a \<in> set (picks bins ?A tp' ?c)" by simp
      with mem have "\<exists>c\<in>set ?cats. a \<in> set (picks bins ?A tp' c)" by (rule rev_bexI)
      then show "a \<in> set ?sel" by simp
    qed
    with sub show ?thesis by blast
  qed
  from res p' sub full show ?thesis by auto
qed

section \<open>Sensor placement: the claims\<close>

lemma placed_same_other_fields:
  assumes "placed bins0 bins sel"
  shows "same_other_fields (bins0 ! i) (bins ! i)"
proof (cases "i \<in> set sel")
  case True
  then obtain j where "j < length sel" and "sel ! j = i" by (auto simp: in_set_conv_nth)
  with assms have "bins ! i
      = (bins0 ! i)\<lparr>selected_for_sensor := True, selection_rank := int j + 1\<rparr>"
    unfolding placed_def by blast
  then show ?thesis by (simp add: same_other_fields_def)
next
  case False
  with assms have "bins ! i = bins0 ! i" unfolding placed_def by blast
  then show ?thesis by (simp add: same_other_fields_def)
qed

lemma placed_selected:
  assumes "placed bins0 bins sel" and "j < length sel"
  shows "selected_for_sensor (bins ! (sel ! j))"
    and "selection_rank (bins ! (sel ! j)) = int j + 1"
proof -
  from assms have "bins ! (sel ! j)
      = (bins0 ! (sel ! j))\<lparr>selected_for_sensor := True, selection_rank := int j + 1\<rparr>"
    unfolding placed_def by blast
  then show "selected_for_sensor (bins ! (sel ! j))"
    and "selection_rank (bins ! (sel ! j)) = int j + 1" by simp_all
qed

text \<open>Claim C6. Whenever the number of assigned bins (those with a nonempty
  \<^verbatim>\<open>cell_id\<close>) is at most \<open>n_sensors\<close>, the call returns normally (no exception, the
  reconciliation loop stops), the returned list holds every assigned bin exactly once,
  every assigned bin is marked selected, and the \<open>j\<close>-th returned bin carries rank
  \<open>j + 1\<close>: the ranks are \<open>1\<close> up to the number of assigned bins. This covers the
  short-circuit (fewer assigned bins than sensors) and the case of equality, which
  the source sends through the category targets.\<close>

theorem select_all_when_insufficient:
  assumes "int (length (assigned_bins bins)) \<le> n_sensors"
  shows "\<exists>bins' selected.
      optimize_sensor_placement bins n_sensors n_categories = Some (Inr (bins', selected))
    \<and> length bins' = length bins
    \<and> distinct selected \<and> set selected = set (assigned_bins bins)
    \<and> length selected = length (assigned_bins bins)
    \<and> (\<forall>a<length bins. bin_cell_id (bins ! a) \<noteq> [] \<longrightarrow> selected_for_sensor (bins' ! a))
    \<and> (\<forall>j<length selected. selected_for_sensor (bins' ! (selected ! j))
          \<and> selection_rank (bins' ! (selected ! j)) = int j + 1)"
proof -
  from optimize_spec [of bins n_sensors n_categories] assms obtain bins' sel where
    r: "optimize_sensor_placement bins n_sensors n_categories = Some (Inr (bins', sel))"
    and p: "placed bins bins' sel" and s: "set sel = set (assigned_bins bins)"
    by blast
  from p have l: "length bins' = length bins" and d: "distinct sel"
    by (simp_all add: placed_def)
  from d s assigned_bins_props(1) [of bins] have n: "length sel = length (assigned_bins bins)"
    by (metis distinct_card)
  have m: "selected_for_sensor (bins' ! (sel ! j)) \<and> selection_rank (bins' ! (sel ! j)) = int j + 1"
    if "j < length sel" for j
    using placed_selected [OF p that] by simp
  have a: "selected_for_sensor (bins' ! a)" if "a < length bins" and "bin_cell_id (bins ! a) \<noteq> []" for a
  proof -
    from that have "a \<in> set (assigned_bins bins)" by (simp add: assigned_bins_def)
    with s have "a \<in> set sel" by simp
    then obtain j where "j < length sel" and "sel ! j = a" by (auto simp: in_set_conv_nth)
    with m show ?thesis by blast
  qed
  from r l d s n a m show ?thesis by blast
qed

text \<open>Claim C10. The call always returns normally. The store keeps its length, every
  object keeps all fields other than \<^verbatim>\<open>selected_for_sensor\<close> and
  \<^verbatim>\<open>selection_rank\<close>, an object that is not among the returned (selected) ones is
  not touched at all, so that it keeps \<^verbatim>\<open>selected_for_sensor = False\<close> and
  \<^verbatim>\<open>selection_rank = 0\<close> if it had them, and every returned object is an object
  of the input list and is marked selected.\<close>

theorem optimize_frame:
  "\<exists>bins' selected.
      optimize_sensor_placement bins n_sensors n_categories = Some (Inr (bins', selected))
    \<and> length bins' = length bins
    \<and> (\<forall>i<length bins. same_other_fields (bins ! i) (bins' ! i))
    \<and> (\<forall>i<length bins. i \<notin> set selected \<longrightarrow> bins' ! i = bins ! i)
    \<and> (\<forall>i<length bins. i \<notin> set selected \<longrightarrow> \<not> selected_for_sensor (bins ! i) \<longrightarrow>
          selection_rank (bins ! i) = 0 \<longrightarrow>
          \<not> selected_for_sensor (bins' ! i) \<and> selection_rank (bins' ! i) = 0)
    \<and> (\<forall>i\<in>set selected. i < length bins \<and> selected_for_sensor (bins' ! i))"
proof -
  from optimize_spec [of bins n_sensors n_categories] obtain bins' sel where
    r: "optimize_sensor_placement bins n_sensors n_categories = Some (Inr (bins', sel))"
    and p: "placed bins bins' sel"
    by blast
  from p have l: "length bins' = length bins" by (simp add: placed_def)
  have f: "\<forall>i<length bins. same_other_fields (bins ! i) (bins' ! i)"
    using placed_same_other_fields [OF p] by blast
  from p have u: "\<forall>i. i \<notin> set sel \<longrightarrow> bins' ! i = bins ! i" by (simp add: placed_def)
  have m: "\<forall>i\<in>set sel. i < length bins \<and> selected_for_sensor (bins' ! i)"
  proof
    fix i assume "i \<in> set sel"
    then obtain j where j: "j < length sel" and e: "sel ! j = i" by (auto simp: in_set_conv_nth)
    from placed_selected(1) [OF p j] e have "selected_for_sensor (bins' ! i)" by simp
    moreover from p \<open>i \<in> set sel\<close> have "i < length bins" by (simp add: placed_def)
    ultimately show "i < length bins \<and> selected_for_sensor (bins' ! i)" by blast
  qed
  from r l f u m show ?thesis by auto
qed

lemma two_bins_assigned: "assigned_bins two_bins = [0, 1]"
  by (simp add: assigned_bins_def two_bins_def new_bin_def upt_rec)

text \<open>Claim C1, evaluated at an input where it fails. Two bins that are assigned to
  the same category and one requested sensor: the category target is raised to the
  floor \<open>min(20, count) = 2\<close>, the reconciliation only ever increments, and both bins
  are selected, one more than \<open>n_sensors = 1\<close>.\<close>

theorem excess_selection:
  "optimize_sensor_placement two_bins 1 8
     = Some (Inr ([(two_bins ! 0)\<lparr>selected_for_sensor := True, selection_rank := 2\<rparr>,
                   (two_bins ! 1)\<lparr>selected_for_sensor := True, selection_rank := 1\<rparr>],
                  [1, 0]))"
proof -
  have cc: "count_categories two_bins [0, 1] [] = [(0, 2)]"
    by (simp add: Let_def dict_get_def two_bins_def new_bin_def)
  have tl: "target_loop 1 (\<Sum>c\<leftarrow>map snd [(0, 2)]. sqrt (real_of_int c)) [(0, 2)] []
      = Inr [(0, 2)]"
    by (simp add: Let_def py_int_def)
  have al: "adjust_loop 1 [(0, 2)] [(0, 2)] (sum_list (map snd [(0, 2)]))
      = Some (Inr ([(0, 2)], 2))"
    by (simp add: adjust_loop.simps)
  have sl: "select_loop (fst ([(0, 2)], 2 :: int)) [0, 1] (sort (map fst (fst ([(0, 2)], 2 :: int))))
        (two_bins, [], 1)
      = Inr ([(two_bins ! 0)\<lparr>selected_for_sensor := True, selection_rank := 2\<rparr>,
              (two_bins ! 1)\<lparr>selected_for_sensor := True, selection_rank := 1\<rparr>],
             [1, 0], 3)"
    by (simp add: Let_def cat_bins_of_def selected_indices_def py_range_step_def upt_rec
        two_bins_def new_bin_def)
  have lt: "\<not> int (length [0 :: nat, 1]) < 1" by simp
  show ?thesis
    apply (simp only: optimize_sensor_placement_def Let_def two_bins_assigned cc tl lt if_False sum.case)
    apply (subst al)
    apply (simp only: option.case sum.case sl prod.case)
    done
qed

lemma three_bins_assigned: "assigned_bins three_bins = [0, 1]"
  by (simp add: assigned_bins_def three_bins_def two_bins_def new_bin_def upt_rec)

lemma three_bins_placement:
  "optimize_sensor_placement three_bins 2 8
     = Some (Inr ([(three_bins ! 0)\<lparr>selected_for_sensor := True, selection_rank := 2\<rparr>,
                   (three_bins ! 1)\<lparr>selected_for_sensor := True, selection_rank := 1\<rparr>,
                   three_bins ! 2],
                  [1, 0]))"
proof -
  have cc: "count_categories three_bins [0, 1] [] = [(0, 2)]"
    by (simp add: Let_def dict_get_def three_bins_def two_bins_def new_bin_def)
  have tl: "target_loop 2 (\<Sum>c\<leftarrow>map snd [(0, 2)]. sqrt (real_of_int c)) [(0, 2)] []
      = Inr [(0, 2)]"
    by (simp add: Let_def py_int_def)
  have al: "adjust_loop 2 [(0, 2)] [(0, 2)] (sum_list (map snd [(0, 2)]))
      = Some (Inr ([(0, 2)], 2))"
    by (simp add: adjust_loop.simps)
  have sl: "select_loop (fst ([(0, 2)], 2 :: int)) [0, 1] (sort (map fst (fst ([(0, 2)], 2 :: int))))
        (three_bins, [], 1)
      = Inr ([(three_bins ! 0)\<lparr>selected_for_sensor := True, selection_rank := 2\<rparr>,
              (three_bins ! 1)\<lparr>selected_for_sensor := True, selection_rank := 1\<rparr>,
              three_bins ! 2],
             [1, 0], 3)"
    by (simp add: Let_def cat_bins_of_def selected_indices_def py_range_step_def upt_rec
        three_bins_def two_bins_def new_bin_def)
  have lt: "\<not> int (length [0 :: nat, 1]) < 2" by simp
  show ?thesis
    apply (simp only: optimize_sensor_placement_def Let_def three_bins_assigned cc tl lt
        if_False sum.case)
    apply (subst al)
    apply (simp only: option.case sum.case sl prod.case)
    done
qed

text \<open>Witness for C6: three bins, two of them assigned, two sensors requested (the
  case of equality).\<close>

theorem select_all_when_insufficient_witness:
  "int (length (assigned_bins three_bins)) \<le> 2
   \<and> (\<exists>bins'. optimize_sensor_placement three_bins 2 8 = Some (Inr (bins', [1, 0]))
        \<and> selected_for_sensor (bins' ! 0) \<and> selection_rank (bins' ! 0) = 2
        \<and> selected_for_sensor (bins' ! 1) \<and> selection_rank (bins' ! 1) = 1)"
proof -
  have h: "int (length (assigned_bins three_bins)) \<le> 2"
    by (simp add: three_bins_assigned)
  from select_all_when_insufficient [OF h, of 8] obtain bins' selected where
    r: "optimize_sensor_placement three_bins 2 8 = Some (Inr (bins', selected))"
    and m: "\<forall>j<length selected. selected_for_sensor (bins' ! (selected ! j))
          \<and> selection_rank (bins' ! (selected ! j)) = int j + 1"
    by blast
  from r three_bins_placement have s: "selected = [1, 0]" by simp
  from m s have "selected_for_sensor (bins' ! 1) \<and> selection_rank (bins' ! 1) = 1"
    by (auto dest: spec [of _ 0])
  moreover from m s have "selected_for_sensor (bins' ! 0) \<and> selection_rank (bins' ! 0) = 2"
    by (auto dest: spec [of _ 1])
  ultimately show ?thesis using h r s by auto
qed

text \<open>Witness for C10 on the same input: bin 2 is unassigned and untouched, bin 0
  is selected and keeps its other fields.\<close>

theorem optimize_frame_witness:
  "\<exists>bins'. optimize_sensor_placement three_bins 2 8 = Some (Inr (bins', [1, 0]))
     \<and> length bins' = length three_bins
     \<and> same_other_fields (three_bins ! 0) (bins' ! 0)
     \<and> (2 < length three_bins \<and> 2 \<notin> set [1, 0 :: nat] \<and> bins' ! 2 = three_bins ! 2
          \<and> \<not> selected_for_sensor (bins' ! 2) \<and> selection_rank (bins' ! 2) = 0)
     \<and> (0 \<in> set [1, 0 :: nat] \<and> selected_for_sensor (bins' ! 0))"
proof -
  from optimize_frame [of three_bins 2 8] obtain bins' selected where
    r: "optimize_sensor_placement three_bins 2 8 = Some (Inr (bins', selected))"
    and l: "length bins' = length three_bins"
    and f: "\<forall>i<length three_bins. same_other_fields (three_bins ! i) (bins' ! i)"
    and u: "\<forall>i<length three_bins. i \<notin> set selected \<longrightarrow> bins' ! i = three_bins ! i"
    and m: "\<forall>i\<in>set selected. i < length three_bins \<and> selected_for_sensor (bins' ! i)"
    by blast
  from r three_bins_placement have s: "selected = [1, 0]" by simp
  have len: "length three_bins = 3" by (simp add: three_bins_def two_bins_def)
  from f len have "same_other_fields (three_bins ! 0) (bins' ! 0)" by simp
  moreover from u s len have e: "bins' ! 2 = three_bins ! 2" by simp
  moreover have "\<not> selected_for_sensor (three_bins ! 2) \<and> selection_rank (three_bins ! 2) = 0"
    by (simp add: three_bins_def two_bins_def new_bin_def)
  moreover from m s have "selected_for_sensor (bins' ! 0)" by simp
  ultimately show ?thesis using r s l len by auto
qed

section \<open>Grid generation, scoring and bin assignment: proofs and claims\<close>

lemma grid_row_empty: "MAX_LON cfg < lo \<Longrightarrow> grid_row cfg la lo st = Some st"
  by (subst grid_row.simps) simp

lemma grid_rows_empty_lat: "MAX_LAT cfg < la \<Longrightarrow> grid_rows cfg la st = Some st"
  by (subst grid_rows.simps) simp

lemma grid_rows_empty_lon:
  assumes lon: "MAX_LON cfg < MIN_LON cfg" and res: "0 < GRID_RESOLUTION cfg"
  shows "grid_rows cfg la st = Some st"
proof (induction "nat \<lceil>(MAX_LAT cfg - la) / GRID_RESOLUTION cfg + 1\<rceil>" arbitrary: la
    rule: less_induct)
  case less
  show ?case
  proof (cases "la \<le> MAX_LAT cfg")
    case False
    then show ?thesis by (simp add: grid_rows_empty_lat)
  next
    case True
    let ?r = "GRID_RESOLUTION cfg"
    have eq: "(MAX_LAT cfg - (la + ?r)) / ?r + 1 = (MAX_LAT cfg - la) / ?r + 1 - 1"
      using res by (simp add: field_simps)
    from True res have "0 \<le> (MAX_LAT cfg - la) / ?r" by simp
    then have "0 < \<lceil>(MAX_LAT cfg - la) / ?r + 1\<rceil>" by linarith
    then have "nat \<lceil>(MAX_LAT cfg - (la + ?r)) / ?r + 1\<rceil> < nat \<lceil>(MAX_LAT cfg - la) / ?r + 1\<rceil>"
      unfolding eq by linarith
    then have "grid_rows cfg (la + ?r) st = Some st" by (rule less.hyps)
    with True lon show ?thesis
      by (subst grid_rows.simps) (simp add: grid_row_empty)
  qed
qed

text \<open>Claim C7, as amended. \<^verbatim>\<open>create_grid\<close> performs no validation of the bounding box and raises no configuration error. When the box is empty with \<open>min > max\<close> on the latitude axis, or on the longitude axis with a positive resolution, it returns normally, and what it returns is the empty list of cells.\<close>

theorem create_grid_no_validation:
  assumes "MAX_LAT cfg < MIN_LAT cfg \<or> (MAX_LON cfg < MIN_LON cfg \<and> 0 < GRID_RESOLUTION cfg)"
  shows "create_grid cfg = Some []"
  using assms
  by (auto simp: create_grid_def grid_rows_empty_lat grid_rows_empty_lon)

text \<open>Counterexample to C7 as stated: the default configuration with the latitude bounds swapped is an empty box, and \<^verbatim>\<open>create_grid\<close> returns a normal result for it.\<close>

theorem create_grid_empty_box_returns:
  "MIN_LAT empty_box_config \<ge> MAX_LAT empty_box_config
   \<and> create_grid empty_box_config = Some []"
  by (simp add: create_grid_def empty_box_config_def default_config_def grid_rows.simps)

text \<open>Witness for the amended C7: the default configuration with the longitude bounds swapped.\<close>

theorem create_grid_no_validation_witness:
  "(MAX_LAT empty_lon_config < MIN_LAT empty_lon_config
      \<or> (MAX_LON empty_lon_config < MIN_LON empty_lon_config
          \<and> 0 < GRID_RESOLUTION empty_lon_config))
   \<and> create_grid empty_lon_config = Some []"
proof -
  have h: "MAX_LAT empty_lon_config < MIN_LAT empty_lon_config
      \<or> (MAX_LON empty_lon_config < MIN_LON empty_lon_config
          \<and> 0 < GRID_RESOLUTION empty_lon_config)"
    by (simp add: empty_lon_config_def default_config_def)
  from h create_grid_no_validation [OF h] show ?thesis by blast
qed

lemma inside_point: "is_in_westminster 51.51 (- 0.15)"
  by (simp add: is_in_westminster_def point_in_polygon_def westminster_boundary_def upt_rec Let_def)

lemma one_cell_config_fields:
  "MIN_LAT one_cell_config = 51.51" "MAX_LAT one_cell_config = 51.51"
  "MIN_LON one_cell_config = - 0.15" "MAX_LON one_cell_config = - 0.15"
  "GRID_RESOLUTION one_cell_config = 0.001"
  by (simp_all add: one_cell_config_def default_config_def)

lemma cell_name_0: "cell_name 0 = ''CELL00000''"
  by (simp add: cell_name_def numeral_eq_Suc)

lemma one_cell_grid:
  "create_grid one_cell_config = Some [new_grid_cell ''CELL00000'' 51.51 (- 0.15)]"
proof -
  have stop: "grid_row one_cell_config 51.51 (- 0.15 + 0.001) st = Some st" for st
    by (rule grid_row_empty) (simp add: one_cell_config_fields)
  have row: "grid_row one_cell_config 51.51 (- 0.15) ([], 0)
      = Some ([new_grid_cell ''CELL00000'' 51.51 (- 0.15)], 1)"
    by (subst grid_row.simps)
      (simp only: one_cell_config_fields inside_point cell_name_0 stop
        if_True order_refl fst_conv snd_conv append_Nil add_0)
  have rows_stop: "grid_rows one_cell_config (51.51 + 0.001) st = Some st" for st
    by (rule grid_rows_empty_lat) (simp add: one_cell_config_fields)
  have "grid_rows one_cell_config 51.51 ([], 0)
      = Some ([new_grid_cell ''CELL00000'' 51.51 (- 0.15)], 1)"
    by (subst grid_rows.simps)
      (simp only: one_cell_config_fields row rows_stop if_True order_refl bind.bind_lunit)
  then show ?thesis
    by (simp add: create_grid_def one_cell_config_fields)
qed

lemma score_pass_fst:
  "fst (score_pass step score pois cells mx) = map (\<lambda>cell. foldl step cell pois) cells"
  by (induction cells arbitrary: mx) (simp_all add: Let_def)

lemma score_pass_snd:
  "snd (score_pass step score pois cells mx)
     = foldl max mx (map (\<lambda>cell. score (foldl step cell pois)) cells)"
  by (induction cells arbitrary: mx) (simp_all add: Let_def)

lemma tube_step_point: "cell_point (tube_step cfg cell tube) = cell_point cell"
  by (simp add: tube_step_def cell_point_def Let_def)

lemma tube_step_score:
  "tube_score (tube_step cfg cell tube) = tube_score cell + tube_influence cfg cell tube"
  by (simp add: tube_step_def tube_influence_def Let_def)

lemma tube_fold_point: "cell_point (foldl (tube_step cfg) cell tubes) = cell_point cell"
  by (induction tubes arbitrary: cell) (simp_all add: tube_step_point)

lemma tube_influence_point:
  "cell_point c = cell_point c' \<Longrightarrow> tube_influence cfg c tube = tube_influence cfg c' tube"
  by (simp add: tube_influence_def)

lemma tube_fold_score:
  "tube_score (foldl (tube_step cfg) cell tubes)
     = tube_score cell + (\<Sum>tube\<leftarrow>tubes. tube_influence cfg cell tube)"
proof (induction tubes arbitrary: cell)
  case Nil
  show ?case by simp
next
  case (Cons t ts)
  have "(\<Sum>tube\<leftarrow>ts. tube_influence cfg (tube_step cfg cell t) tube)
      = (\<Sum>tube\<leftarrow>ts. tube_influence cfg cell tube)"
    using tube_influence_point [OF tube_step_point] by (metis (no_types))
  with Cons [of "tube_step cfg cell t"] show ?case
    by (simp add: tube_step_score)
qed

lemma bus_step_tube: "tube_score (bus_step cfg cell bus) = tube_score cell"
  by (simp add: bus_step_def Let_def)

lemma bus_fold_tube: "tube_score (foldl (bus_step cfg) cell buses) = tube_score cell"
  by (induction buses arbitrary: cell) (simp_all add: bus_step_tube)

lemma premises_step_tube: "tube_score (premises_step cfg cell p) = tube_score cell"
  by (simp add: premises_step_def Let_def)

lemma premises_fold_tube: "tube_score (foldl (premises_step cfg) cell ps) = tube_score cell"
  by (induction ps arbitrary: cell) (simp_all add: premises_step_tube)

lemma composite_tube: "tube_score (composite cfg a b c cell) = tube_score cell"
  by (simp add: composite_def Let_def)

lemma calculate_length:
  "length (calculate_footfall_scores cells tubes buses premises cfg) = length cells"
  by (simp add: calculate_footfall_scores_def Let_def score_pass_fst)

lemma calculate_tube_score:
  assumes "i < length cells"
  shows "tube_score (calculate_footfall_scores cells tubes buses premises cfg ! i)
     = tube_score (cells ! i) + (\<Sum>tube\<leftarrow>tubes. tube_influence cfg (cells ! i) tube)"
  using assms
  by (simp add: calculate_footfall_scores_def Let_def score_pass_fst composite_tube
      premises_fold_tube bus_fold_tube tube_fold_score)

lemma tube_influence_raw:
  "tube_influence cfg cell tube =
     (if sqrt ((center_lat cell - tube_lat tube)\<^sup>2 + (center_lon cell - tube_lon tube)\<^sup>2)
           < TUBE_INFLUENCE_RADIUS cfg
      then annual_usage tube
           * (1 - sqrt ((center_lat cell - tube_lat tube)\<^sup>2
                        + (center_lon cell - tube_lon tube)\<^sup>2)
                  / TUBE_INFLUENCE_RADIUS cfg)\<^sup>2
      else 0)"
  by (simp add: tube_influence_def distance_to_def cell_point_def)

text \<open>Claim C4. After \<^verbatim>\<open>calculate_footfall_scores\<close> the raw tube score of every cell is its score before the call plus, for every station, \<open>usage * (1 - dist / radius)\<^sup>2\<close> when \<open>dist < radius\<close> and \<open>0\<close> otherwise, where \<open>dist\<close> is the Euclidean distance of the raw coordinates, the square root of the squared difference of the latitudes plus the squared difference of the longitudes. A station at a distance of exactly the radius contributes nothing. A station of usage \<open>100\<close> at the exact centre of a fresh cell, with radius \<open>0.005\<close>, gives the raw score \<open>100 * (1 - 0 / 0.005)\<^sup>2\<close>: this variant of the code applies no distance floor, the distance enters as it is.\<close>

theorem tube_influence_cutoff:
  "length (calculate_footfall_scores cells tubes buses premises cfg) = length cells
   \<and> (\<forall>i<length cells.
        tube_score (calculate_footfall_scores cells tubes buses premises cfg ! i)
          = tube_score (cells ! i)
            + (\<Sum>tube\<leftarrow>tubes.
                 if sqrt ((center_lat (cells ! i) - tube_lat tube)\<^sup>2
                          + (center_lon (cells ! i) - tube_lon tube)\<^sup>2)
                      < TUBE_INFLUENCE_RADIUS cfg
                 then annual_usage tube
                      * (1 - sqrt ((center_lat (cells ! i) - tube_lat tube)\<^sup>2
                                   + (center_lon (cells ! i) - tube_lon tube)\<^sup>2)
                             / TUBE_INFLUENCE_RADIUS cfg)\<^sup>2
                 else 0))
   \<and> (sqrt ((center_lat cell - tube_lat tube)\<^sup>2 + (center_lon cell - tube_lon tube)\<^sup>2)
          = TUBE_INFLUENCE_RADIUS cfg \<longrightarrow>
        tube_score (calculate_footfall_scores [cell] [tube] buses premises cfg ! 0)
          = tube_score cell)
   \<and> (TUBE_INFLUENCE_RADIUS cfg = 0.005 \<longrightarrow>
        tube_score (calculate_footfall_scores [new_grid_cell cid la lo]
            [\<lparr>tube_name = name, tube_lat = la, tube_lon = lo, annual_usage = 100\<rparr>]
            buses premises cfg ! 0)
          = 100 * (1 - 0 / 0.005)\<^sup>2)"
proof (intro conjI allI impI)
  show "length (calculate_footfall_scores cells tubes buses premises cfg) = length cells"
    by (rule calculate_length)
next
  fix i assume "i < length cells"
  then show "tube_score (calculate_footfall_scores cells tubes buses premises cfg ! i)
          = tube_score (cells ! i)
            + (\<Sum>tube\<leftarrow>tubes.
                 if sqrt ((center_lat (cells ! i) - tube_lat tube)\<^sup>2
                          + (center_lon (cells ! i) - tube_lon tube)\<^sup>2)
                      < TUBE_INFLUENCE_RADIUS cfg
                 then annual_usage tube
                      * (1 - sqrt ((center_lat (cells ! i) - tube_lat tube)\<^sup>2
                                   + (center_lon (cells ! i) - tube_lon tube)\<^sup>2)
                             / TUBE_INFLUENCE_RADIUS cfg)\<^sup>2
                 else 0)"
    by (simp only: calculate_tube_score tube_influence_raw)
next
  assume "sqrt ((center_lat cell - tube_lat tube)\<^sup>2 + (center_lon cell - tube_lon tube)\<^sup>2)
          = TUBE_INFLUENCE_RADIUS cfg"
  then show "tube_score (calculate_footfall_scores [cell] [tube] buses premises cfg ! 0)
          = tube_score cell"
    by (simp add: calculate_tube_score tube_influence_raw)
next
  assume r: "TUBE_INFLUENCE_RADIUS cfg = 0.005"
  show "tube_score (calculate_footfall_scores [new_grid_cell cid la lo]
            [\<lparr>tube_name = name, tube_lat = la, tube_lon = lo, annual_usage = 100\<rparr>]
            buses premises cfg ! 0)
          = 100 * (1 - 0 / 0.005)\<^sup>2"
    using r by (simp add: calculate_tube_score tube_influence_raw new_grid_cell_def)
qed

lemma distance_same_lat: "lat p = lat q \<Longrightarrow> distance_to p q = \<bar>lon p - lon q\<bar>"
  by (simp add: distance_to_def)

text \<open>Claim C3, evaluated at an input where it fails. Two cells within the radius of one station have the raw tube scores \<open>100\<close> and \<open>64\<close>. The code divides by the maximum only, so the second cell gets the normalised tube score \<open>0.64\<close> and the composite score \<open>0.45 * 0.64 = 0.288\<close>; min-max normalisation with the computed minimum \<open>64\<close> would give it \<open>0\<close>.\<close>

theorem max_only_normalisation:
  "map tube_score (calculate_footfall_scores oxford_cells [oxford_station] [] [] default_config)
     = [100, 64]
   \<and> map footfall_score
        (calculate_footfall_scores oxford_cells [oxford_station] [] [] default_config)
     = [0.45, 0.288]"
  by (simp add: calculate_footfall_scores_def Let_def tube_step_def composite_def
      cell_point_def new_grid_cell_def oxford_cells_def oxford_station_def default_config_def
      distance_same_lat power2_eq_square)

lemma sqrt_3_4: "sqrt ((0.003 :: real)\<^sup>2 + 0.004\<^sup>2) = 0.005"
  by (rule real_sqrt_unique) (simp_all add: power2_eq_square)

lemma sqrt_15_20: "sqrt ((0.0015 :: real)\<^sup>2 + 0.002\<^sup>2) = 0.0025"
  by (rule real_sqrt_unique) (simp_all add: power2_eq_square)

text \<open>Witness for C4, with the default radius \<open>0.005\<close> and a station of usage \<open>100\<close>. A cell that differs from the station by \<open>0.0015\<close> in latitude and \<open>0.002\<close> in longitude is at distance \<open>0.0025\<close> and gets \<open>100 * (1 - 0.5)\<^sup>2 = 25\<close>; a cell that differs by \<open>0.003\<close> and \<open>0.004\<close> is at distance \<open>0.005\<close>, exactly the radius, and gets \<open>0\<close>; a cell with the station on its centre gets \<open>100\<close>. In the first two cases the station is at \<open>(0, 0)\<close>, so that the coordinate differences are the coordinates of the cell.\<close>

theorem tube_influence_cutoff_witness:
  "tube_score (calculate_footfall_scores [new_grid_cell ''CELL00000'' 0.0015 0.002]
        [origin_station] [] [] default_config ! 0) = 25
   \<and> sqrt ((center_lat (new_grid_cell ''CELL00001'' 0.003 0.004) - tube_lat origin_station)\<^sup>2
         + (center_lon (new_grid_cell ''CELL00001'' 0.003 0.004) - tube_lon origin_station)\<^sup>2)
       = TUBE_INFLUENCE_RADIUS default_config
   \<and> tube_score (calculate_footfall_scores [new_grid_cell ''CELL00001'' 0.003 0.004]
        [origin_station] [] [] default_config ! 0) = 0
   \<and> TUBE_INFLUENCE_RADIUS default_config = 0.005
   \<and> tube_score (calculate_footfall_scores [new_grid_cell ''CELL00000'' 51.515 (- 0.142)]
        [\<lparr>tube_name = ''Oxford Circus'', tube_lat = 51.515, tube_lon = - 0.142,
          annual_usage = 100\<rparr>] [] [] default_config ! 0) = 100"
proof -
  let ?near = "new_grid_cell ''CELL00000'' 0.0015 0.002"
  let ?edge = "new_grid_cell ''CELL00001'' 0.003 0.004"
  note inst = tube_influence_cutoff [of "[?near]" "[origin_station]" "[]" "[]" default_config
      ?edge origin_station "''CELL00000''" "51.515" "- 0.142" "''Oxford Circus''"]
  have r: "TUBE_INFLUENCE_RADIUS default_config = 0.005" by (simp add: default_config_def)
  have d: "sqrt ((center_lat ?edge - tube_lat origin_station)\<^sup>2
         + (center_lon ?edge - tube_lon origin_station)\<^sup>2)
       = TUBE_INFLUENCE_RADIUS default_config"
    by (simp only: r new_grid_cell_def origin_station_def grid_cell.simps tube_station.simps
        diff_zero sqrt_3_4)
  have n: "sqrt ((center_lat ?near - tube_lat origin_station)\<^sup>2
         + (center_lon ?near - tube_lon origin_station)\<^sup>2) = 0.0025"
    by (simp only: new_grid_cell_def origin_station_def grid_cell.simps tube_station.simps
        diff_zero sqrt_15_20)
  from inst have "tube_score (calculate_footfall_scores [?near] [origin_station] [] []
            default_config ! 0)
      = tube_score ([?near] ! 0)
        + (\<Sum>tube\<leftarrow>[origin_station].
             if sqrt ((center_lat ([?near] ! 0) - tube_lat tube)\<^sup>2
                      + (center_lon ([?near] ! 0) - tube_lon tube)\<^sup>2)
                  < TUBE_INFLUENCE_RADIUS default_config
             then annual_usage tube
                  * (1 - sqrt ((center_lat ([?near] ! 0) - tube_lat tube)\<^sup>2
                               + (center_lon ([?near] ! 0) - tube_lon tube)\<^sup>2)
                         / TUBE_INFLUENCE_RADIUS default_config)\<^sup>2
             else 0)"
    by simp
  then have "tube_score (calculate_footfall_scores [?near] [origin_station] [] []
            default_config ! 0)
      = tube_score ?near
        + (if (0.0025 :: real) < 0.005
           then annual_usage origin_station * (1 - 0.0025 / 0.005)\<^sup>2 else 0)"
    by (simp only: nth_Cons_0 list.map sum_list.Cons sum_list.Nil add_0_right n r)
  then have a: "tube_score (calculate_footfall_scores [?near] [origin_station] [] []
            default_config ! 0) = 25"
    by (simp add: new_grid_cell_def origin_station_def power2_eq_square)
  from inst d have "tube_score (calculate_footfall_scores [?edge] [origin_station] [] []
        default_config ! 0) = tube_score ?edge"
    by blast
  then have b: "tube_score (calculate_footfall_scores [?edge] [origin_station] [] []
        default_config ! 0) = 0"
    by (simp add: new_grid_cell_def)
  from inst r have "tube_score (calculate_footfall_scores
        [new_grid_cell ''CELL00000'' 51.515 (- 0.142)]
        [\<lparr>tube_name = ''Oxford Circus'', tube_lat = 51.515, tube_lon = - 0.142,
          annual_usage = 100\<rparr>] [] [] default_config ! 0) = 100 * (1 - 0 / 0.005)\<^sup>2"
    by blast
  then have c: "tube_score (calculate_footfall_scores
        [new_grid_cell ''CELL00000'' 51.515 (- 0.142)]
        [\<lparr>tube_name = ''Oxford Circus'', tube_lat = 51.515, tube_lon = - 0.142,
          annual_usage = 100\<rparr>] [] [] default_config ! 0) = 100"
    by simp
  from a d b r c show ?thesis by (intro conjI)
qed

lemma nearest_loop_spec:
  "case nearest_loop p cells best of
     None \<Rightarrow> cells = [] \<and> best = None
   | Some (d, c) \<Rightarrow>
       (best = Some (d, c) \<or> (c \<in> set cells \<and> d = distance_to p (cell_point c)))
       \<and> (\<forall>c'\<in>set cells. d \<le> distance_to p (cell_point c'))
       \<and> (\<forall>d0 c0. best = Some (d0, c0) \<longrightarrow> d \<le> d0)"
proof (induction cells arbitrary: best)
  case Nil
  show ?case by (cases best) auto
next
  case (Cons cell cells)
  let ?dist = "distance_to p (cell_point cell)"
  let ?best = "case best of None \<Rightarrow> Some (?dist, cell)
               | Some (min_dist, nearest_cell) \<Rightarrow>
                   if ?dist < min_dist then Some (?dist, cell) else best"
  have step: "nearest_loop p (cell # cells) best = nearest_loop p cells ?best"
    by (simp add: Let_def)
  from Cons [of ?best] show ?case
    unfolding step
    by (cases best; cases "nearest_loop p cells ?best") (auto split: if_splits)
qed

lemma nearest_loop_None: "nearest_loop p cells None = None \<longleftrightarrow> cells = []"
  using nearest_loop_spec [where p = p and cells = cells and best = None]
  by (cases cells; cases "nearest_loop p cells None") auto

lemma nearest_loop_Some:
  assumes "nearest_loop p cells None = Some (d, c)"
  shows "nearest p cells c" and "d = distance_to p (cell_point c)"
  using nearest_loop_spec [where p = p and cells = cells and best = None] assms
  by (auto simp: nearest_def)

lemma assign_bin_spec:
  "(snd (assign_bin cells cfg b)
      \<longleftrightarrow> (\<exists>c. nearest (bin_point b) cells c
             \<and> distance_to (bin_point b) (cell_point c) < GRID_RESOLUTION cfg * 2))
   \<and> (snd (assign_bin cells cfg b) \<longrightarrow>
        (\<exists>c. nearest (bin_point b) cells c
           \<and> distance_to (bin_point b) (cell_point c) < GRID_RESOLUTION cfg * 2
           \<and> fst (assign_bin cells cfg b) = linked b c))
   \<and> (\<not> snd (assign_bin cells cfg b) \<longrightarrow>
        fst (assign_bin cells cfg b) = b
        \<and> (\<forall>c\<in>set cells.
              \<not> distance_to (bin_point b) (cell_point c) < GRID_RESOLUTION cfg * 2))"
proof (cases "nearest_loop (bin_point b) cells None")
  case None
  then have "cells = []" by (simp add: nearest_loop_None)
  with None show ?thesis
    by (simp add: assign_bin_def bin_point_def [symmetric] nearest_def)
next
  case (Some r)
  obtain d c where r: "r = (d, c)" by (cases r)
  from nearest_loop_Some [where p = "bin_point b" and cells = cells and d = d and c = c] Some r
  have n: "nearest (bin_point b) cells c" and d: "d = distance_to (bin_point b) (cell_point c)"
    by simp_all
  show ?thesis
  proof (cases "d < GRID_RESOLUTION cfg * 2")
    case True
    with Some r have "assign_bin cells cfg b = (linked b c, True)"
      by (simp add: assign_bin_def bin_point_def [symmetric] linked_def)
    with n d True show ?thesis by auto
  next
    case False
    with Some r have e: "assign_bin cells cfg b = (b, False)"
      by (simp add: assign_bin_def bin_point_def [symmetric])
    have far: "\<not> distance_to (bin_point b) (cell_point c') < GRID_RESOLUTION cfg * 2"
      if "c' \<in> set cells" for c'
    proof -
      from n that have "d \<le> distance_to (bin_point b) (cell_point c')"
        unfolding d nearest_def by blast
      with False show ?thesis by simp
    qed
    from e far show ?thesis by (auto simp: nearest_def)
  qed
qed

lemma assign_loop_fst:
  "fst (assign_loop cells cfg bins k) = map (\<lambda>b. fst (assign_bin cells cfg b)) bins"
  by (induction bins arbitrary: k) (simp_all add: Let_def)

lemma assign_loop_snd:
  "snd (assign_loop cells cfg bins k)
     = k + length (filter (\<lambda>b. snd (assign_bin cells cfg b)) bins)"
  by (induction bins arbitrary: k) (simp_all add: Let_def)

lemma linked_cell_id: "bin_cell_id (linked b c) = cell_id c"
  by (simp add: linked_def)

lemma linked_selection:
  "selected_for_sensor (linked b c) = selected_for_sensor b"
  "selection_rank (linked b c) = selection_rank b"
  by (simp_all add: linked_def)

text \<open>What \<^verbatim>\<open>assign_bins_to_cells\<close> and the placement that follows it do with a list of bins as the loader creates them, in terms of \<open>nearest\<close> and \<^verbatim>\<open>distance_to\<close>.\<close>

lemma assign_bins_spec:
  assumes fresh: "\<forall>b\<in>set bins. bin_cell_id b = [] \<and> \<not> selected_for_sensor b \<and> selection_rank b = 0"
    and ids: "\<forall>c\<in>set cells. cell_id c \<noteq> []"
  shows "\<exists>bins1 assigned. assign_bins_to_cells bins cells cfg = (bins1, assigned)
     \<and> length bins1 = length bins
     \<and> (\<forall>i<length bins.
          (bin_cell_id (bins1 ! i) \<noteq> [] \<longleftrightarrow>
             (\<exists>c. nearest (bin_point (bins ! i)) cells c
                \<and> distance_to (bin_point (bins ! i)) (cell_point c) < GRID_RESOLUTION cfg * 2))
        \<and> (bin_cell_id (bins1 ! i) \<noteq> [] \<longrightarrow>
             (\<exists>c. nearest (bin_point (bins ! i)) cells c \<and> bins1 ! i = linked (bins ! i) c))
        \<and> (bin_cell_id (bins1 ! i) = [] \<longrightarrow> bins1 ! i = bins ! i))
     \<and> assigned = length (filter (\<lambda>b. bin_cell_id b \<noteq> []) bins1)
     \<and> length bins - assigned = length (filter (\<lambda>b. bin_cell_id b = []) bins1)
     \<and> (\<exists>bins2 selected.
          optimize_sensor_placement bins1 n_sensors n_categories = Some (Inr (bins2, selected))
        \<and> (\<forall>i<length bins. bin_cell_id (bins1 ! i) = [] \<longrightarrow>
              i \<notin> set selected \<and> bin_cell_id (bins2 ! i) = []
              \<and> \<not> selected_for_sensor (bins2 ! i) \<and> selection_rank (bins2 ! i) = 0))"
proof -
  let ?f = "\<lambda>b. fst (assign_bin cells cfg b)"
  let ?g = "\<lambda>b. snd (assign_bin cells cfg b)"
  let ?bins1 = "map ?f bins"
  let ?assigned = "length (filter ?g bins)"
  have res: "assign_bins_to_cells bins cells cfg = (?bins1, ?assigned)"
    by (simp add: assign_bins_to_cells_def prod_eq_iff assign_loop_fst assign_loop_snd)
  have flag: "bin_cell_id (?f b) \<noteq> [] \<longleftrightarrow> ?g b" if "b \<in> set bins" for b
  proof (cases "?g b")
    case True
    with assign_bin_spec [of cells cfg b] obtain c where
      "nearest (bin_point b) cells c" and "?f b = linked b c" by blast
    with ids have "bin_cell_id (?f b) \<noteq> []" by (simp add: nearest_def linked_cell_id)
    with True show ?thesis by simp
  next
    case False
    with assign_bin_spec [of cells cfg b] have "?f b = b" by blast
    with fresh that False show ?thesis by simp
  qed
  have per: "(bin_cell_id (?bins1 ! i) \<noteq> [] \<longleftrightarrow>
             (\<exists>c. nearest (bin_point (bins ! i)) cells c
                \<and> distance_to (bin_point (bins ! i)) (cell_point c) < GRID_RESOLUTION cfg * 2))
        \<and> (bin_cell_id (?bins1 ! i) \<noteq> [] \<longrightarrow>
             (\<exists>c. nearest (bin_point (bins ! i)) cells c \<and> ?bins1 ! i = linked (bins ! i) c))
        \<and> (bin_cell_id (?bins1 ! i) = [] \<longrightarrow> ?bins1 ! i = bins ! i)"
    if i: "i < length bins" for i
  proof -
    from i have m: "bins ! i \<in> set bins" by simp
    from i have e: "?bins1 ! i = ?f (bins ! i)" by simp
    from flag [OF m] assign_bin_spec [of cells cfg "bins ! i"] show ?thesis
      unfolding e by blast
  qed
  have cnt: "?assigned = length (filter (\<lambda>b. bin_cell_id b \<noteq> []) ?bins1)"
  proof -
    have "filter ?g bins = filter (\<lambda>b. bin_cell_id (?f b) \<noteq> []) bins"
      using flag by (intro filter_cong) auto
    then show ?thesis by (simp add: filter_map comp_def)
  qed
  have drop: "length bins - ?assigned = length (filter (\<lambda>b. bin_cell_id b = []) ?bins1)"
  proof -
    have "length (filter (\<lambda>b. bin_cell_id b \<noteq> []) ?bins1)
        + length (filter (\<lambda>b. \<not> bin_cell_id b \<noteq> []) ?bins1) = length ?bins1"
      by (rule sum_length_filter_compl)
    with cnt show ?thesis by simp
  qed
  from optimize_spec [of ?bins1 n_sensors n_categories] obtain bins2 sel where
    r: "optimize_sensor_placement ?bins1 n_sensors n_categories = Some (Inr (bins2, sel))"
    and p: "placed ?bins1 bins2 sel" and s: "set sel \<subseteq> set (assigned_bins ?bins1)"
    by blast
  have un: "i \<notin> set sel \<and> bin_cell_id (bins2 ! i) = []
        \<and> \<not> selected_for_sensor (bins2 ! i) \<and> selection_rank (bins2 ! i) = 0"
    if i: "i < length bins" and e: "bin_cell_id (?bins1 ! i) = []" for i
  proof -
    from e have "i \<notin> set (assigned_bins ?bins1)" by (simp add: assigned_bins_def)
    with s have n: "i \<notin> set sel" by blast
    with p have "bins2 ! i = ?bins1 ! i" by (simp add: placed_def)
    moreover from per [OF i] e have "?bins1 ! i = bins ! i" by blast
    moreover from i fresh have "bin_cell_id (bins ! i) = [] \<and> \<not> selected_for_sensor (bins ! i)
        \<and> selection_rank (bins ! i) = 0" by simp
    ultimately show ?thesis using n by simp
  qed
  have opt: "\<exists>bins2 selected.
          optimize_sensor_placement ?bins1 n_sensors n_categories = Some (Inr (bins2, selected))
        \<and> (\<forall>i<length bins. bin_cell_id (?bins1 ! i) = [] \<longrightarrow>
              i \<notin> set selected \<and> bin_cell_id (bins2 ! i) = []
              \<and> \<not> selected_for_sensor (bins2 ! i) \<and> selection_rank (bins2 ! i) = 0)"
    apply (rule exI [of _ bins2])
    apply (rule exI [of _ sel])
    apply (rule conjI)
     apply (rule r)
    apply (intro allI impI)
    apply (rule un; assumption)
    done
  have len: "length ?bins1 = length bins" by simp
  have all: "\<forall>i<length bins.
          (bin_cell_id (?bins1 ! i) \<noteq> [] \<longleftrightarrow>
             (\<exists>c. nearest (bin_point (bins ! i)) cells c
                \<and> distance_to (bin_point (bins ! i)) (cell_point c) < GRID_RESOLUTION cfg * 2))
        \<and> (bin_cell_id (?bins1 ! i) \<noteq> [] \<longrightarrow>
             (\<exists>c. nearest (bin_point (bins ! i)) cells c \<and> ?bins1 ! i = linked (bins ! i) c))
        \<and> (bin_cell_id (?bins1 ! i) = [] \<longrightarrow> ?bins1 ! i = bins ! i)"
    using per by (intro allI impI)
  show ?thesis
    apply (rule exI [of _ ?bins1])
    apply (rule exI [of _ ?assigned])
    apply (intro conjI)
         apply (rule res)
        apply (rule len)
       apply (rule all)
      apply (rule cnt)
     apply (rule drop)
    apply (rule opt)
    done
qed

lemma distance_to_raw: "distance_to (bin_point b) (cell_point c) = raw_distance b c"
  by (simp add: distance_to_def bin_point_def cell_point_def)

lemma nearest_raw:
  "nearest (bin_point b) cells c \<longleftrightarrow>
     c \<in> set cells \<and> (\<forall>c'\<in>set cells. raw_distance b c \<le> raw_distance b c')"
  by (simp add: nearest_def distance_to_raw)

text \<open>Claim C5, as the code has it. The bins come from the loader (empty \<^verbatim>\<open>cell_id\<close>, not selected, rank \<open>0\<close>) and every cell has an id. The distance of a bin to a cell is the Euclidean distance of the raw coordinates, written out as \<open>raw_distance\<close>. After \<^verbatim>\<open>assign_bins_to_cells\<close> a bin has a nonempty \<^verbatim>\<open>cell_id\<close> if and only if its distance to a nearest cell is strictly less than \<open>2 * GRID_RESOLUTION\<close>: the comparison of the code is \<^verbatim>\<open>min_dist < config.GRID_RESOLUTION * 2\<close>, so a bin whose nearest cell is at exactly the threshold is left out. A linked bin is the input bin with id, category, score, ward, road and the two estimates of a nearest cell; every other bin is unchanged. The number the function reports is the number of linked bins, so the number of dropped bins is the length of the list minus it. A bin left without \<^verbatim>\<open>cell_id\<close> is not among the bins that \<^verbatim>\<open>optimize_sensor_placement\<close> selects and keeps \<^verbatim>\<open>selected_for_sensor = False\<close> and \<^verbatim>\<open>selection_rank = 0\<close>.\<close>

theorem bin_assignment_threshold:
  assumes fresh: "\<forall>b\<in>set bins. bin_cell_id b = [] \<and> \<not> selected_for_sensor b \<and> selection_rank b = 0"
    and ids: "\<forall>c\<in>set cells. cell_id c \<noteq> []"
  shows "\<exists>bins1 assigned. assign_bins_to_cells bins cells cfg = (bins1, assigned)
     \<and> length bins1 = length bins
     \<and> (\<forall>i<length bins.
          (bin_cell_id (bins1 ! i) \<noteq> [] \<longleftrightarrow>
             (\<exists>c\<in>set cells.
                (\<forall>c'\<in>set cells. raw_distance (bins ! i) c \<le> raw_distance (bins ! i) c')
                \<and> raw_distance (bins ! i) c < GRID_RESOLUTION cfg * 2))
        \<and> (bin_cell_id (bins1 ! i) \<noteq> [] \<longrightarrow>
             (\<exists>c\<in>set cells.
                (\<forall>c'\<in>set cells. raw_distance (bins ! i) c \<le> raw_distance (bins ! i) c')
                \<and> bins1 ! i = linked (bins ! i) c))
        \<and> (bin_cell_id (bins1 ! i) = [] \<longrightarrow> bins1 ! i = bins ! i))
     \<and> assigned = length (filter (\<lambda>b. bin_cell_id b \<noteq> []) bins1)
     \<and> length bins - assigned = length (filter (\<lambda>b. bin_cell_id b = []) bins1)
     \<and> (\<exists>bins2 selected.
          optimize_sensor_placement bins1 n_sensors n_categories = Some (Inr (bins2, selected))
        \<and> (\<forall>i<length bins. bin_cell_id (bins1 ! i) = [] \<longrightarrow>
              i \<notin> set selected \<and> bin_cell_id (bins2 ! i) = []
              \<and> \<not> selected_for_sensor (bins2 ! i) \<and> selection_rank (bins2 ! i) = 0))"
  using assign_bins_spec [OF fresh ids, of cfg n_sensors n_categories]
  unfolding nearest_raw distance_to_raw Bex_def by simp

lemma corner_fields:
  "corner_cells ! 0 = new_grid_cell ''CELL00000'' 0 0"
  "corner_cells ! 1 = new_grid_cell ''CELL00001'' 0.0018 0.0013"
  "corner_bins ! 0 = new_bin ''BIN00000'' 0.0006 0.0008"
  "corner_bins ! 1 = new_bin ''BIN00001'' (- 0.0012) (- 0.0016)"
  "set corner_cells = {corner_cells ! 0, corner_cells ! 1}"
  "length corner_bins = 2"
  by (simp_all add: corner_cells_def corner_bins_def)

lemma corner_distances:
  "raw_distance (corner_bins ! 0) (corner_cells ! 0) = 0.001"
  "raw_distance (corner_bins ! 0) (corner_cells ! 1) = 0.0013"
  "raw_distance (corner_bins ! 1) (corner_cells ! 0) = 0.002"
  "0.002 \<le> raw_distance (corner_bins ! 1) (corner_cells ! 1)"
proof -
  show "raw_distance (corner_bins ! 0) (corner_cells ! 0) = 0.001"
    by (rule real_sqrt_unique)
      (simp_all add: corner_cells_def corner_bins_def new_bin_def new_grid_cell_def power2_eq_square)
  show "raw_distance (corner_bins ! 0) (corner_cells ! 1) = 0.0013"
    by (rule real_sqrt_unique)
      (simp_all add: corner_cells_def corner_bins_def new_bin_def new_grid_cell_def power2_eq_square)
  show "raw_distance (corner_bins ! 1) (corner_cells ! 0) = 0.002"
    by (rule real_sqrt_unique)
      (simp_all add: corner_cells_def corner_bins_def new_bin_def new_grid_cell_def power2_eq_square)
  show "0.002 \<le> raw_distance (corner_bins ! 1) (corner_cells ! 1)"
    by (rule real_le_rsqrt)
      (simp add: corner_cells_def corner_bins_def new_bin_def new_grid_cell_def power2_eq_square)
qed

lemma default_threshold: "GRID_RESOLUTION default_config * 2 = 0.002"
  by (simp add: default_config_def)

text \<open>Witness for C5 as amended, with the default resolution \<open>0.001\<close>: two cells and two bins. The first bin is at distance \<open>0.001\<close> from the first cell and \<open>0.0013\<close> from the second (which is the nearer one in longitude alone) and is linked to the first cell. The second bin has its nearest cell at exactly \<open>0.002\<close>; it stays unassigned and is not selected.\<close>

theorem bin_assignment_threshold_witness:
  "list_all (\<lambda>b. bin_cell_id b = [] \<and> \<not> selected_for_sensor b \<and> selection_rank b = 0) corner_bins
   \<and> list_all (\<lambda>c. cell_id c \<noteq> []) corner_cells
   \<and> raw_distance (corner_bins ! 0) (corner_cells ! 0) = 0.001
   \<and> raw_distance (corner_bins ! 0) (corner_cells ! 1) = 0.0013
   \<and> raw_distance (corner_bins ! 1) (corner_cells ! 0) = GRID_RESOLUTION default_config * 2
   \<and> GRID_RESOLUTION default_config * 2 \<le> raw_distance (corner_bins ! 1) (corner_cells ! 1)
   \<and> (\<exists>bins1. assign_bins_to_cells corner_bins corner_cells default_config = (bins1, 1)
        \<and> bins1 ! 0 = linked (corner_bins ! 0) (corner_cells ! 0)
        \<and> bin_cell_id (bins1 ! 0) = ''CELL00000''
        \<and> bins1 ! 1 = corner_bins ! 1
        \<and> bin_cell_id (bins1 ! 1) = []
        \<and> (\<exists>bins2 selected.
              optimize_sensor_placement bins1 1000 8 = Some (Inr (bins2, selected))
            \<and> 1 \<notin> set selected \<and> \<not> selected_for_sensor (bins2 ! 1)
            \<and> selection_rank (bins2 ! 1) = 0))"
proof -
  let ?A = "corner_cells ! 0" and ?B = "corner_cells ! 1"
  let ?b0 = "corner_bins ! 0" and ?b1 = "corner_bins ! 1"
  have h1: "\<forall>b\<in>set corner_bins. bin_cell_id b = [] \<and> \<not> selected_for_sensor b \<and> selection_rank b = 0"
    by (simp add: corner_bins_def new_bin_def)
  have h2: "\<forall>c\<in>set corner_cells. cell_id c \<noteq> []"
    by (simp add: corner_cells_def new_grid_cell_def)
  from h1 have l1: "list_all (\<lambda>b. bin_cell_id b = [] \<and> \<not> selected_for_sensor b \<and> selection_rank b = 0) corner_bins"
    unfolding list_all_iff .
  from h2 have l2: "list_all (\<lambda>c. cell_id c \<noteq> []) corner_cells"
    unfolding list_all_iff .
  note d = corner_distances
  note t = default_threshold
  from bin_assignment_threshold [OF h1 h2, of default_config 1000 8]
  obtain bins1 assigned bins2 selected where
    r: "assign_bins_to_cells corner_bins corner_cells default_config = (bins1, assigned)"
    and len: "length bins1 = length corner_bins"
    and per: "\<forall>i<length corner_bins.
          (bin_cell_id (bins1 ! i) \<noteq> [] \<longleftrightarrow>
             (\<exists>c\<in>set corner_cells.
                (\<forall>c'\<in>set corner_cells.
                    raw_distance (corner_bins ! i) c \<le> raw_distance (corner_bins ! i) c')
                \<and> raw_distance (corner_bins ! i) c < GRID_RESOLUTION default_config * 2))
        \<and> (bin_cell_id (bins1 ! i) \<noteq> [] \<longrightarrow>
             (\<exists>c\<in>set corner_cells.
                (\<forall>c'\<in>set corner_cells.
                    raw_distance (corner_bins ! i) c \<le> raw_distance (corner_bins ! i) c')
                \<and> bins1 ! i = linked (corner_bins ! i) c))
        \<and> (bin_cell_id (bins1 ! i) = [] \<longrightarrow> bins1 ! i = corner_bins ! i)"
    and cnt: "assigned = length (filter (\<lambda>b. bin_cell_id b \<noteq> []) bins1)"
    and o: "optimize_sensor_placement bins1 1000 8 = Some (Inr (bins2, selected))"
    and u: "\<forall>i<length corner_bins. bin_cell_id (bins1 ! i) = [] \<longrightarrow>
              i \<notin> set selected \<and> bin_cell_id (bins2 ! i) = []
              \<and> \<not> selected_for_sensor (bins2 ! i) \<and> selection_rank (bins2 ! i) = 0"
    by blast
  have two: "length corner_bins = 2" by (rule corner_fields)
  have cs: "set corner_cells = {?A, ?B}" by (rule corner_fields)
  have b2: "(\<forall>x\<in>{?A, ?B}. P x) \<longleftrightarrow> P ?A \<and> P ?B" for P
    by blast
  have e2: "(\<exists>x\<in>{?A, ?B}. P x) \<longleftrightarrow> P ?A \<or> P ?B" for P
    by blast
  have nb: "\<not> raw_distance ?b1 ?B < 0.002"
    using d(4) by (simp only: not_less)
  from per two have "(bin_cell_id (bins1 ! 0) \<noteq> [] \<longleftrightarrow>
             (\<exists>c\<in>set corner_cells.
                (\<forall>c'\<in>set corner_cells. raw_distance ?b0 c \<le> raw_distance ?b0 c')
                \<and> raw_distance ?b0 c < GRID_RESOLUTION default_config * 2))
        \<and> (bin_cell_id (bins1 ! 0) \<noteq> [] \<longrightarrow>
             (\<exists>c\<in>set corner_cells.
                (\<forall>c'\<in>set corner_cells. raw_distance ?b0 c \<le> raw_distance ?b0 c')
                \<and> bins1 ! 0 = linked ?b0 c))"
    by simp
  then have p0: "(bin_cell_id (bins1 ! 0) \<noteq> [] \<longleftrightarrow>
        ((0.001 :: real) \<le> 0.001 \<and> (0.001 :: real) \<le> 0.0013) \<and> (0.001 :: real) < 0.002
        \<or> ((0.0013 :: real) \<le> 0.001 \<and> (0.0013 :: real) \<le> 0.0013) \<and> (0.0013 :: real) < 0.002)
     \<and> (bin_cell_id (bins1 ! 0) \<noteq> [] \<longrightarrow>
        ((0.001 :: real) \<le> 0.001 \<and> (0.001 :: real) \<le> 0.0013) \<and> bins1 ! 0 = linked ?b0 ?A
        \<or> ((0.0013 :: real) \<le> 0.001 \<and> (0.0013 :: real) \<le> 0.0013) \<and> bins1 ! 0 = linked ?b0 ?B)"
    unfolding cs t b2 e2 d(1) d(2) .
  then have id0: "bin_cell_id (bins1 ! 0) \<noteq> []" by simp
  with p0 have e0: "bins1 ! 0 = linked ?b0 ?A" by simp
  then have n0: "bin_cell_id (bins1 ! 0) = ''CELL00000''"
    by (simp add: linked_cell_id corner_cells_def new_grid_cell_def)
  from per two have "(bin_cell_id (bins1 ! 1) \<noteq> [] \<longleftrightarrow>
             (\<exists>c\<in>set corner_cells.
                (\<forall>c'\<in>set corner_cells. raw_distance ?b1 c \<le> raw_distance ?b1 c')
                \<and> raw_distance ?b1 c < GRID_RESOLUTION default_config * 2))
        \<and> (bin_cell_id (bins1 ! 1) = [] \<longrightarrow> bins1 ! 1 = ?b1)"
    by simp
  then have p1: "(bin_cell_id (bins1 ! 1) \<noteq> [] \<longleftrightarrow>
        ((0.002 :: real) \<le> 0.002 \<and> 0.002 \<le> raw_distance ?b1 ?B) \<and> (0.002 :: real) < 0.002
        \<or> (raw_distance ?b1 ?B \<le> 0.002 \<and> raw_distance ?b1 ?B \<le> raw_distance ?b1 ?B)
           \<and> raw_distance ?b1 ?B < 0.002)
     \<and> (bin_cell_id (bins1 ! 1) = [] \<longrightarrow> bins1 ! 1 = ?b1)"
    unfolding cs t b2 e2 d(3) .
  with nb have id1: "bin_cell_id (bins1 ! 1) = []" by simp
  with p1 have e1: "bins1 ! 1 = ?b1" by blast
  from len two have "bins1 = [bins1 ! 0, bins1 ! 1]"
    by (cases bins1; cases "tl bins1") auto
  then have "filter (\<lambda>b. bin_cell_id b \<noteq> []) bins1
      = filter (\<lambda>b. bin_cell_id b \<noteq> []) [bins1 ! 0, bins1 ! 1]"
    by simp
  with id0 id1 cnt have a: "assigned = 1" by simp
  from r a have r': "assign_bins_to_cells corner_bins corner_cells default_config = (bins1, 1)"
    by simp
  from u two id1 have u1: "1 \<notin> set selected \<and> \<not> selected_for_sensor (bins2 ! 1)
      \<and> selection_rank (bins2 ! 1) = 0"
    by simp
  have d3: "raw_distance ?b1 ?A = GRID_RESOLUTION default_config * 2"
    unfolding t by (rule d(3))
  have d4: "GRID_RESOLUTION default_config * 2 \<le> raw_distance ?b1 ?B"
    unfolding t by (rule d(4))
  from o u1 have opt: "\<exists>bins2 selected.
              optimize_sensor_placement bins1 1000 8 = Some (Inr (bins2, selected))
            \<and> 1 \<notin> set selected \<and> \<not> selected_for_sensor (bins2 ! 1)
            \<and> selection_rank (bins2 ! 1) = 0"
    by blast
  from r' e0 n0 e1 id1 opt have ex: "\<exists>bins1. assign_bins_to_cells corner_bins corner_cells default_config = (bins1, 1)
        \<and> bins1 ! 0 = linked (corner_bins ! 0) (corner_cells ! 0)
        \<and> bin_cell_id (bins1 ! 0) = ''CELL00000''
        \<and> bins1 ! 1 = corner_bins ! 1
        \<and> bin_cell_id (bins1 ! 1) = []
        \<and> (\<exists>bins2 selected.
              optimize_sensor_placement bins1 1000 8 = Some (Inr (bins2, selected))
            \<and> 1 \<notin> set selected \<and> \<not> selected_for_sensor (bins2 ! 1)
            \<and> selection_rank (bins2 ! 1) = 0)"
    by blast
  from l1 l2 d(1) d(2) d3 d4 ex show ?thesis
    by (intro conjI)
qed

lemma edge_distance:
  "raw_distance (edge_bins ! 0) (edge_cells ! 0) = 0.002"
  by (rule real_sqrt_unique)
    (simp_all add: edge_bins_def edge_cells_def new_bin_def new_grid_cell_def power2_eq_square)

lemma edge_assign_bin:
  "assign_bin edge_cells default_config (edge_bins ! 0) = (edge_bins ! 0, False)"
proof -
  have s: "set edge_cells = {edge_cells ! 0}" by (simp add: edge_cells_def)
  have "\<not> (\<exists>c. nearest (bin_point (edge_bins ! 0)) edge_cells c
      \<and> distance_to (bin_point (edge_bins ! 0)) (cell_point c) < GRID_RESOLUTION default_config * 2)"
    unfolding nearest_raw distance_to_raw s default_threshold
    using edge_distance by simp
  with assign_bin_spec [of edge_cells default_config "edge_bins ! 0"]
  have "\<not> snd (assign_bin edge_cells default_config (edge_bins ! 0))"
    by blast
  with assign_bin_spec [of edge_cells default_config "edge_bins ! 0"]
  have "fst (assign_bin edge_cells default_config (edge_bins ! 0)) = edge_bins ! 0"
    and "\<not> snd (assign_bin edge_cells default_config (edge_bins ! 0))"
    by blast+
  then show ?thesis by (simp add: prod_eq_iff)
qed

text \<open>C5 as stated does not hold at the threshold itself. One cell and one bin at distance \<open>0.002 = 2 * GRID_RESOLUTION\<close> from it, which is within the threshold: the bin keeps its empty \<^verbatim>\<open>cell_id\<close> and the function reports no assigned bin.\<close>

theorem bin_at_threshold_unassigned:
  "raw_distance (edge_bins ! 0) (edge_cells ! 0) = GRID_RESOLUTION default_config * 2
   \<and> edge_cells = [edge_cells ! 0]
   \<and> assign_bins_to_cells edge_bins edge_cells default_config = (edge_bins, 0)
   \<and> bin_cell_id (fst (assign_bins_to_cells edge_bins edge_cells default_config) ! 0) = []"
proof -
  have e: "edge_bins = [edge_bins ! 0]" by (simp add: edge_bins_def)
  have c: "edge_cells = [edge_cells ! 0]" by (simp add: edge_cells_def)
  have "assign_bins_to_cells [edge_bins ! 0] edge_cells default_config = ([edge_bins ! 0], 0)"
    by (simp add: assign_bins_to_cells_def edge_assign_bin)
  with e have a: "assign_bins_to_cells edge_bins edge_cells default_config = (edge_bins, 0)"
    by simp
  have i: "bin_cell_id (edge_bins ! 0) = []" by (simp add: edge_bins_def new_bin_def)
  from edge_distance default_threshold c a i show ?thesis by simp
qed

section \<open>Categorisation: proofs and claims\<close>

lemma length_category_names: "length category_names = 8"
  by (simp add: category_names_def)

lemma py_index_ok:
  "(\<exists>x. py_index xs i = Inr x) \<longleftrightarrow> - int (length xs) \<le> i \<and> i < int (length xs)"
  by (auto simp: py_index_def)

lemma category_loop_spec:
  assumes "distinct refs" and "\<forall>c\<in>set refs. c < length cells"
    and "category_loop K n i refs cells = Inr cells'"
  shows "length cells' = length cells
     \<and> (\<forall>p<length refs. footfall_category (cells' ! (refs ! p)) = category_at K n (i + p)
            \<and> - 8 \<le> category_at K n (i + p) \<and> category_at K n (i + p) < 8)
     \<and> (\<forall>j. j \<notin> set refs \<longrightarrow> cells' ! j = cells ! j)
     \<and> (\<forall>j. cell_id (cells' ! j) = cell_id (cells ! j)
            \<and> footfall_score (cells' ! j) = footfall_score (cells ! j)
            \<and> center_lat (cells' ! j) = center_lat (cells ! j)
            \<and> center_lon (cells' ! j) = center_lon (cells ! j))"
  using assms
proof (induction refs arbitrary: cells i)
  case Nil
  then show ?case by simp
next
  case (Cons c cs)
  let ?cat = "category_at K n i"
  from Cons.prems(3) obtain name where nm: "py_index category_names ?cat = Inr name"
    by (cases "py_index category_names ?cat") (simp_all add: Let_def category_at_def)
  then have rng: "- 8 \<le> ?cat \<and> ?cat < 8"
    using py_index_ok [of category_names ?cat] by (simp add: length_category_names)
  let ?cells1 = "cells[c := (cells ! c)\<lparr>footfall_category := ?cat,
                                       footfall_category_name := name\<rparr>]"
  from Cons.prems(3) nm have r: "category_loop K n (i + 1) cs ?cells1 = Inr cells'"
    by (simp add: Let_def category_at_def)
  from Cons.prems have d: "distinct cs" and nc: "c \<notin> set cs" and lc: "c < length cells"
    and b: "\<forall>x\<in>set cs. x < length ?cells1" by simp_all
  from Cons.IH [OF d b r] have
    l: "length cells' = length ?cells1"
    and m: "\<forall>p<length cs. footfall_category (cells' ! (cs ! p)) = category_at K n (i + 1 + p)
            \<and> - 8 \<le> category_at K n (i + 1 + p) \<and> category_at K n (i + 1 + p) < 8"
    and u: "\<forall>j. j \<notin> set cs \<longrightarrow> cells' ! j = ?cells1 ! j"
    and f: "\<forall>j. cell_id (cells' ! j) = cell_id (?cells1 ! j)
            \<and> footfall_score (cells' ! j) = footfall_score (?cells1 ! j)
            \<and> center_lat (cells' ! j) = center_lat (?cells1 ! j)
            \<and> center_lon (cells' ! j) = center_lon (?cells1 ! j)"
    by blast+
  have len: "length cells' = length cells" using l by simp
  have per: "footfall_category (cells' ! ((c # cs) ! p)) = category_at K n (i + p)
            \<and> - 8 \<le> category_at K n (i + p) \<and> category_at K n (i + p) < 8"
    if "p < length (c # cs)" for p
  proof (cases p)
    case 0
    from u nc have "cells' ! c = ?cells1 ! c" by blast
    with lc 0 rng show ?thesis by simp
  next
    case (Suc q)
    with that have "q < length cs" by simp
    with m Suc show ?thesis by simp
  qed
  have unt: "cells' ! j = cells ! j" if "j \<notin> set (c # cs)" for j
    using that u by simp
  have fld: "cell_id (cells' ! j) = cell_id (cells ! j)
            \<and> footfall_score (cells' ! j) = footfall_score (cells ! j)
            \<and> center_lat (cells' ! j) = center_lat (cells ! j)
            \<and> center_lon (cells' ! j) = center_lon (cells ! j)" for j
  proof (cases "j = c")
    case True
    with f [rule_format, of j] lc show ?thesis by simp
  next
    case False
    with f [rule_format, of j] show ?thesis by simp
  qed
  from len per unt fld show ?case by blast
qed

lemma category_loop_total:
  assumes "\<forall>p<length refs. - 8 \<le> category_at K n (i + p) \<and> category_at K n (i + p) < 8"
  shows "\<exists>cells'. category_loop K n i refs cells = Inr cells'"
  using assms
proof (induction refs arbitrary: cells i)
  case Nil
  then show ?case by simp
next
  case (Cons c cs)
  let ?cat = "category_at K n i"
  from Cons.prems have "- 8 \<le> ?cat \<and> ?cat < 8" by fastforce
  then obtain name where nm: "py_index category_names ?cat = Inr name"
    using py_index_ok [of category_names ?cat] by (auto simp: length_category_names)
  have "\<forall>p<length cs. - 8 \<le> category_at K n (i + 1 + p) \<and> category_at K n (i + 1 + p) < 8"
  proof (intro allI impI)
    fix p assume "p < length cs"
    then have "Suc p < length (c # cs)" by simp
    with Cons.prems have "- 8 \<le> category_at K n (i + Suc p) \<and> category_at K n (i + Suc p) < 8"
      by blast
    then show "- 8 \<le> category_at K n (i + 1 + p) \<and> category_at K n (i + 1 + p) < 8" by simp
  qed
  from Cons.IH [OF this] nm show ?case
    by (simp add: Let_def category_at_def)
qed

lemma tag_loop_spec:
  assumes "tag_loop gw gr cells = Inr cells'"
  shows "length cells' = length cells
     \<and> (\<forall>j<length cells. footfall_category (cells' ! j) = footfall_category (cells ! j)
            \<and> cell_id (cells' ! j) = cell_id (cells ! j)
            \<and> footfall_score (cells' ! j) = footfall_score (cells ! j))"
  using assms
proof (induction cells arbitrary: cells')
  case Nil
  then show ?case by simp
next
  case (Cons c cs)
  from Cons.prems obtain pph rest where
    e: "estimate_people_per_hour (footfall_score c) (footfall_category c) = Inr pph"
    and r: "tag_loop gw gr cs = Inr rest"
    and c': "cells' = c\<lparr>ward := gw (center_lon c) (center_lat c),
                 road_name := gr (center_lat c) (center_lon c) (gw (center_lon c) (center_lat c)),
                 estimated_people_per_hour := pph,
                 estimated_bin_fill_rate := estimate_bin_fill_rate pph 240\<rparr> # rest"
    by (auto simp: Let_def split: sum.splits)
  from Cons.IH [OF r] have l: "length rest = length cs"
    and m: "\<forall>j<length cs. footfall_category (rest ! j) = footfall_category (cs ! j)
            \<and> cell_id (rest ! j) = cell_id (cs ! j)
            \<and> footfall_score (rest ! j) = footfall_score (cs ! j)"
    by blast+
  have "footfall_category (cells' ! j) = footfall_category ((c # cs) ! j)
            \<and> cell_id (cells' ! j) = cell_id ((c # cs) ! j)
            \<and> footfall_score (cells' ! j) = footfall_score ((c # cs) ! j)"
    if "j < length (c # cs)" for j
    using that m c' by (cases j) simp_all
  with l c' show ?case by simp
qed

lemma estimate_total:
  "- 8 \<le> category \<Longrightarrow> category < 8 \<Longrightarrow> \<exists>pph. estimate_people_per_hour score category = Inr pph"
  by (auto simp: estimate_people_per_hour_def py_index_def Let_def)

lemma tag_loop_total:
  assumes "\<forall>c\<in>set cells. - 8 \<le> footfall_category c \<and> footfall_category c < 8"
  shows "\<exists>cells'. tag_loop gw gr cells = Inr cells'"
  using assms
proof (induction cells)
  case Nil
  then show ?case by simp
next
  case (Cons c cs)
  then obtain rest where r: "tag_loop gw gr cs = Inr rest" by auto
  from Cons.prems obtain pph where
    "estimate_people_per_hour (footfall_score c) (footfall_category c) = Inr pph"
    using estimate_total [of "footfall_category c" "footfall_score c"] by auto
  with r show ?case by (simp add: Let_def)
qed

lemma print_categories_ok:
  "(\<exists>u. print_categories cats = Inr u) \<longleftrightarrow> (\<forall>c\<in>set cats. - 8 \<le> c \<and> c < 8)"
proof (induction cats)
  case Nil
  show ?case by simp
next
  case (Cons c cs)
  show ?case
  proof (cases "py_index category_names c")
    case (Inl e)
    with py_index_ok [of category_names c] have "\<not> (- 8 \<le> c \<and> c < 8)"
      by (simp add: length_category_names)
    with Inl show ?thesis by auto
  next
    case (Inr name)
    with py_index_ok [of category_names c] have "- 8 \<le> c \<and> c < 8"
      by (simp add: length_category_names)
    with Inr Cons show ?thesis by simp
  qed
qed

lemma print_categories_range:
  "(\<exists>u. print_categories (map int [0..<nat K]) = Inr u) \<longleftrightarrow> K \<le> 8"
proof -
  have "(\<forall>c\<in>set (map int [0..<nat K]). - 8 \<le> c \<and> c < 8) \<longleftrightarrow> K \<le> 8"
  proof
    assume a: "\<forall>c\<in>set (map int [0..<nat K]). - 8 \<le> c \<and> c < 8"
    show "K \<le> 8"
    proof (rule ccontr)
      assume "\<not> K \<le> 8"
      then have "int 8 \<in> set (map int [0..<nat K])" by (simp add: image_iff)
      with a show False by fastforce
    qed
  next
    assume "K \<le> 8"
    then show "\<forall>c\<in>set (map int [0..<nat K]). - 8 \<le> c \<and> c < 8" by auto
  qed
  then show ?thesis by (simp only: print_categories_ok)
qed

lemma sorted_wrt_filter_nth:
  "sorted_wrt R (filter P xs) \<Longrightarrow> i < j \<Longrightarrow> j < length xs \<Longrightarrow> P (xs ! i) \<Longrightarrow> P (xs ! j)
   \<Longrightarrow> R (xs ! i) (xs ! j)"
proof (induction xs arbitrary: i j)
  case Nil
  then show ?case by simp
next
  case (Cons x xs)
  from Cons.prems(1) have tl: "sorted_wrt R (filter P xs)"
    by (simp split: if_splits)
  from Cons.prems(2) obtain j' where j: "j = Suc j'" by (cases j) simp_all
  show ?case
  proof (cases i)
    case 0
    with Cons.prems have px: "P x" by simp
    from Cons.prems j have "xs ! j' \<in> set (filter P xs)" by simp
    with Cons.prems(1) px have "R x (xs ! j')" by simp
    with 0 j show ?thesis by simp
  next
    case (Suc i')
    with Cons.prems j Cons.IH [OF tl, of i' j'] show ?thesis by simp
  qed
qed

lemma score_order_props:
  "distinct (score_order cells)"
  "set (score_order cells) = {0..<length cells}"
  "length (score_order cells) = length cells"
  "sorted (map (\<lambda>c. footfall_score (cells ! c)) (score_order cells))"
  by (simp_all add: score_order_def)

lemma score_order_stable:
  assumes "p < q" and "q < length cells"
    and "footfall_score (cells ! (score_order cells ! p))
           = footfall_score (cells ! (score_order cells ! q))"
  shows "score_order cells ! p < score_order cells ! q"
proof -
  let ?f = "\<lambda>c. footfall_score (cells ! c)"
  let ?k = "?f (score_order cells ! q)"
  have "filter (\<lambda>y. ?f y = ?k) (score_order cells) = filter (\<lambda>y. ?f y = ?k) [0..<length cells]"
    unfolding score_order_def by (rule sort_key_stable)
  moreover have "sorted_wrt (<) (filter (\<lambda>y. ?f y = ?k) [0..<length cells])"
    by (intro sorted_wrt_filter sorted_wrt_upt)
  ultimately have "sorted_wrt (<) (filter (\<lambda>y. ?f y = ?k) (score_order cells))" by simp
  from sorted_wrt_filter_nth [OF this assms(1)] assms(2,3) show ?thesis
    by (simp add: score_order_props)
qed

lemma category_at_floor:
  assumes "p < n"
  shows "category_at K n p = min \<lfloor>real p / real n * real_of_int K\<rfloor> (K - 1)"
proof (cases "0 \<le> K")
  case True
  then have "0 \<le> real p / real n * real_of_int K" by simp
  then show ?thesis by (simp add: category_at_def py_int_def)
next
  case False
  let ?x = "real p / real n * real_of_int K"
  from assms have "real p / real n \<le> 1" by simp
  with False have "real_of_int K * 1 \<le> real_of_int K * (real p / real n)"
    by (intro mult_left_mono_neg) simp_all
  then have kx: "real_of_int K \<le> ?x" by (simp add: mult.commute)
  then have "K \<le> \<lfloor>?x\<rfloor>" by (simp add: le_floor_iff)
  moreover have "\<lfloor>?x\<rfloor> \<le> py_int ?x" by (simp add: py_int_def floor_le_ceiling)
  ultimately show ?thesis by (simp add: category_at_def)
qed

lemma category_at_nat:
  assumes "p < n" and "1 \<le> K"
  shows "category_at K n p = int (p * nat K div n)"
proof -
  have "real p / real n * real_of_int K = real (p * nat K) / real n"
    using assms by simp
  then have "\<lfloor>real p / real n * real_of_int K\<rfloor> = int (p * nat K div n)"
    by (simp only: floor_divide_of_nat_eq)
  moreover have "int (p * nat K div n) \<le> K - 1"
  proof -
    from assms have k: "0 < nat K" by simp
    from assms k have "p * nat K < n * nat K" by simp
    then have "p * nat K div n < nat K"
      using assms by (simp add: div_less_iff_less_mult mult.commute)
    then show ?thesis by linarith
  qed
  ultimately show ?thesis using category_at_floor [OF assms(1), of K] by simp
qed

lemma categorize_cells_spec:
  assumes "categorize_cells gw gr cells cfg = Inr cells'"
  shows "length cells' = length cells"
    and "\<forall>p<length cells.
           footfall_category (cells' ! (score_order cells ! p))
             = category_at (N_FOOTFALL_CATEGORIES cfg) (length cells) p"
    and "\<forall>j<length cells. cell_id (cells' ! j) = cell_id (cells ! j)
           \<and> footfall_score (cells' ! j) = footfall_score (cells ! j)"
    and "N_FOOTFALL_CATEGORIES cfg \<le> 8"
proof -
  let ?K = "N_FOOTFALL_CATEGORIES cfg"
  let ?n = "length cells"
  let ?o = "score_order cells"
  from assms obtain cells1 u where
    c1: "category_loop ?K ?n 0 ?o cells = Inr cells1"
    and c2: "tag_loop gw gr cells1 = Inr cells'"
    and c3: "print_categories (map int [0..<nat ?K]) = Inr u"
    by (auto simp: categorize_cells_def score_order_def Let_def split: sum.splits)
  have b: "\<forall>c\<in>set ?o. c < length cells" by (simp add: score_order_props)
  from category_loop_spec [OF score_order_props(1) b c1] have
    l1: "length cells1 = length cells"
    and m1: "\<forall>p<length ?o. footfall_category (cells1 ! (?o ! p)) = category_at ?K ?n (0 + p)"
    and f1: "\<forall>j. cell_id (cells1 ! j) = cell_id (cells ! j)
            \<and> footfall_score (cells1 ! j) = footfall_score (cells ! j)"
    by blast+
  from tag_loop_spec [OF c2] have
    l2: "length cells' = length cells1"
    and f2: "\<forall>j<length cells1. footfall_category (cells' ! j) = footfall_category (cells1 ! j)
            \<and> cell_id (cells' ! j) = cell_id (cells1 ! j)
            \<and> footfall_score (cells' ! j) = footfall_score (cells1 ! j)"
    by blast+
  from l1 l2 show "length cells' = length cells" by simp
  show "\<forall>p<length cells. footfall_category (cells' ! (?o ! p)) = category_at ?K ?n p"
  proof (intro allI impI)
    fix p assume p: "p < length cells"
    then have "?o ! p \<in> set ?o" by (simp add: score_order_props(3))
    then have "?o ! p \<in> {0..<length cells}" by (simp only: score_order_props(2))
    then have "?o ! p < length cells1" by (simp add: l1)
    with f2 have "footfall_category (cells' ! (?o ! p)) = footfall_category (cells1 ! (?o ! p))"
      by blast
    with m1 p show "footfall_category (cells' ! (?o ! p)) = category_at ?K ?n p"
      by (simp add: score_order_props)
  qed
  from f1 f2 l1 show "\<forall>j<length cells. cell_id (cells' ! j) = cell_id (cells ! j)
           \<and> footfall_score (cells' ! j) = footfall_score (cells ! j)"
    by simp
  from c3 print_categories_range [of ?K] show "?K \<le> 8" by blast
qed

lemma category_at_range:
  assumes "p < n" and "1 \<le> K"
  shows "0 \<le> category_at K n p" and "category_at K n p < K"
proof -
  from assms have e: "category_at K n p = int (p * nat K div n)" by (rule category_at_nat)
  show "0 \<le> category_at K n p" unfolding e by simp
  from assms have k: "0 < nat K" by simp
  from assms k have "p * nat K < n * nat K" by simp
  then have "p * nat K div n < nat K"
    using assms by (simp add: div_less_iff_less_mult mult.commute)
  then show "category_at K n p < K" unfolding e by linarith
qed

lemma categorize_cells_total:
  assumes "1 \<le> N_FOOTFALL_CATEGORIES cfg" and "N_FOOTFALL_CATEGORIES cfg \<le> 8"
  shows "\<exists>cells'. categorize_cells gw gr cells cfg = Inr cells'"
proof -
  let ?K = "N_FOOTFALL_CATEGORIES cfg"
  let ?n = "length cells"
  let ?o = "score_order cells"
  have rng: "- 8 \<le> category_at ?K ?n p \<and> category_at ?K ?n p < 8" if "p < ?n" for p
    using category_at_range [OF that assms(1)] assms(2) by simp
  then have "\<forall>p<length ?o. - 8 \<le> category_at ?K ?n (0 + p) \<and> category_at ?K ?n (0 + p) < 8"
    by (simp add: score_order_props)
  from category_loop_total [OF this] obtain cells1 where
    c1: "category_loop ?K ?n 0 ?o cells = Inr cells1" by blast
  have b: "\<forall>c\<in>set ?o. c < length cells" by (simp add: score_order_props)
  from category_loop_spec [OF score_order_props(1) b c1] have
    l1: "length cells1 = length cells"
    and m1: "\<forall>p<length ?o. footfall_category (cells1 ! (?o ! p)) = category_at ?K ?n (0 + p)"
    by blast+
  have "\<forall>c\<in>set cells1. - 8 \<le> footfall_category c \<and> footfall_category c < 8"
  proof
    fix c assume "c \<in> set cells1"
    then obtain j where j: "j < length cells1" and c: "c = cells1 ! j"
      by (auto simp: in_set_conv_nth)
    from j l1 have "j \<in> set ?o" by (simp add: score_order_props)
    then obtain p where p: "p < length ?o" and e: "?o ! p = j" by (auto simp: in_set_conv_nth)
    with m1 have "footfall_category (cells1 ! j) = category_at ?K ?n p" by auto
    with rng p c show "- 8 \<le> footfall_category c \<and> footfall_category c < 8"
      by (simp add: score_order_props)
  qed
  from tag_loop_total [OF this] obtain cells2 where c2: "tag_loop gw gr cells1 = Inr cells2"
    by blast
  from assms(2) print_categories_range [of ?K] obtain u where
    c3: "print_categories (map int [0..<nat ?K]) = Inr u" by blast
  from c1 c2 c3 show ?thesis
    by (simp add: categorize_cells_def score_order_def Let_def)
qed

text \<open>Claim C2. For a category count \<open>K\<close> between \<open>1\<close> and \<open>8\<close>, the size of the label table, \<^verbatim>\<open>categorize_cells\<close> returns normally. Whenever it returns normally, the cells keep their position, id and score, and there is a permutation \<open>order\<close> of the positions that sorts the cells by \<^verbatim>\<open>footfall_score\<close> ascending and is stable (cells of equal score stay in their original order) such that the cell at sorted position \<open>p\<close> out of \<open>n\<close> has category \<open>min(floor((p / n) * K), K - 1)\<close>. The stable sorted permutation is unique and the model is a function of the cells and the configuration, so the assignment is deterministic. For \<open>K > 8\<close> the call does not return normally: the statistics at the end read \<^verbatim>\<open>category_names[cat]\<close> for every \<open>cat < K\<close> (lemma \<open>categorize_cells_spec\<close>).\<close>

theorem percentile_categories:
  "(1 \<le> N_FOOTFALL_CATEGORIES cfg \<and> N_FOOTFALL_CATEGORIES cfg \<le> 8 \<longrightarrow>
      (\<exists>cells'. categorize_cells gw gr cells cfg = Inr cells'))
   \<and> (\<forall>cells'. categorize_cells gw gr cells cfg = Inr cells' \<longrightarrow>
        length cells' = length cells
        \<and> (\<forall>j<length cells. cell_id (cells' ! j) = cell_id (cells ! j)
              \<and> footfall_score (cells' ! j) = footfall_score (cells ! j))
        \<and> (\<exists>order. distinct order \<and> set order = {0..<length cells}
              \<and> sorted (map (\<lambda>c. footfall_score (cells ! c)) order)
              \<and> (\<forall>p q. p < q \<and> q < length cells
                    \<and> footfall_score (cells ! (order ! p)) = footfall_score (cells ! (order ! q))
                    \<longrightarrow> order ! p < order ! q)
              \<and> (\<forall>p<length cells.
                    footfall_category (cells' ! (order ! p))
                      = min \<lfloor>real p / real (length cells)
                               * real_of_int (N_FOOTFALL_CATEGORIES cfg)\<rfloor>
                            (N_FOOTFALL_CATEGORIES cfg - 1))))"
proof (intro conjI allI impI)
  assume "1 \<le> N_FOOTFALL_CATEGORIES cfg \<and> N_FOOTFALL_CATEGORIES cfg \<le> 8"
  then show "\<exists>cells'. categorize_cells gw gr cells cfg = Inr cells'"
    using categorize_cells_total by blast
next
  fix cells' assume r: "categorize_cells gw gr cells cfg = Inr cells'"
  from categorize_cells_spec(1) [OF r] show "length cells' = length cells" .
next
  fix cells' j assume r: "categorize_cells gw gr cells cfg = Inr cells'" and "j < length cells"
  with categorize_cells_spec(3) [OF r] show "cell_id (cells' ! j) = cell_id (cells ! j)" by blast
next
  fix cells' j assume r: "categorize_cells gw gr cells cfg = Inr cells'" and "j < length cells"
  with categorize_cells_spec(3) [OF r]
  show "footfall_score (cells' ! j) = footfall_score (cells ! j)" by blast
next
  fix cells' assume r: "categorize_cells gw gr cells cfg = Inr cells'"
  let ?o = "score_order cells"
  have st: "\<forall>p q. p < q \<and> q < length cells
        \<and> footfall_score (cells ! (?o ! p)) = footfall_score (cells ! (?o ! q))
        \<longrightarrow> ?o ! p < ?o ! q"
    using score_order_stable by blast
  have ct: "\<forall>p<length cells. footfall_category (cells' ! (?o ! p))
      = min \<lfloor>real p / real (length cells) * real_of_int (N_FOOTFALL_CATEGORIES cfg)\<rfloor>
          (N_FOOTFALL_CATEGORIES cfg - 1)"
    using categorize_cells_spec(2) [OF r] category_at_floor by simp
  show "\<exists>order. distinct order \<and> set order = {0..<length cells}
              \<and> sorted (map (\<lambda>c. footfall_score (cells ! c)) order)
              \<and> (\<forall>p q. p < q \<and> q < length cells
                    \<and> footfall_score (cells ! (order ! p)) = footfall_score (cells ! (order ! q))
                    \<longrightarrow> order ! p < order ! q)
              \<and> (\<forall>p<length cells.
                    footfall_category (cells' ! (order ! p))
                      = min \<lfloor>real p / real (length cells)
                               * real_of_int (N_FOOTFALL_CATEGORIES cfg)\<rfloor>
                            (N_FOOTFALL_CATEGORIES cfg - 1))"
    apply (rule exI [of _ ?o])
    apply (intro conjI)
        apply (rule score_order_props(1))
       apply (rule score_order_props(2))
      apply (rule score_order_props(4))
     apply (rule st)
    apply (rule ct)
    done
qed

lemma ceil_div_le_iff: "0 < k \<Longrightarrow> ceil_div x k \<le> p \<longleftrightarrow> x \<le> p * k"
proof -
  assume k: "0 < k"
  have "ceil_div x k \<le> p \<longleftrightarrow> (x + k - 1) div k < Suc p"
    unfolding ceil_div_def by (rule less_Suc_eq_le [symmetric])
  also have "\<dots> \<longleftrightarrow> x + k - 1 < Suc p * k" using k by (simp only: div_less_iff_less_mult)
  also have "\<dots> \<longleftrightarrow> x \<le> p * k" using k by auto
  finally show ?thesis .
qed

lemma bucket_interval:
  assumes k: "0 < k" and n: "0 < n" and a: "a < k"
  shows "{p. p < n \<and> p * k div n = a} = {ceil_div (a * n) k ..< ceil_div (Suc a * n) k}"
proof -
  have le_n: "ceil_div (Suc a * n) k \<le> n"
  proof -
    from a have "Suc a \<le> k" by simp
    then have "Suc a * n \<le> k * n" by (rule mult_le_mono1)
    then have "Suc a * n \<le> n * k" by (simp only: mult.commute)
    with k show ?thesis by (simp only: ceil_div_le_iff)
  qed
  have "p < n \<and> p * k div n = a \<longleftrightarrow> ceil_div (a * n) k \<le> p \<and> p < ceil_div (Suc a * n) k" for p
  proof -
    have "p * k div n = a \<longleftrightarrow> a \<le> p * k div n \<and> p * k div n < Suc a" by auto
    also have "\<dots> \<longleftrightarrow> a * n \<le> p * k \<and> p * k < Suc a * n"
      using n by (simp only: less_eq_div_iff_mult_less_eq div_less_iff_less_mult)
    also have "\<dots> \<longleftrightarrow> ceil_div (a * n) k \<le> p \<and> \<not> ceil_div (Suc a * n) k \<le> p"
      using k by (simp only: ceil_div_le_iff not_le)
    finally have e: "p * k div n = a
        \<longleftrightarrow> ceil_div (a * n) k \<le> p \<and> p < ceil_div (Suc a * n) k"
      by (simp only: not_le)
    show ?thesis
    proof
      assume "p < n \<and> p * k div n = a"
      with e show "ceil_div (a * n) k \<le> p \<and> p < ceil_div (Suc a * n) k" by blast
    next
      assume h: "ceil_div (a * n) k \<le> p \<and> p < ceil_div (Suc a * n) k"
      with le_n have "p < n" by linarith
      moreover from h e have "p * k div n = a" by blast
      ultimately show "p < n \<and> p * k div n = a" by blast
    qed
  qed
  then show ?thesis by (simp only: set_eq_iff mem_Collect_eq atLeastLessThan_iff) blast
qed

lemma bucket_size_bounds:
  assumes k: "0 < k"
  shows "n div k \<le> ceil_div (Suc a * n) k - ceil_div (a * n) k"
    and "ceil_div (Suc a * n) k - ceil_div (a * n) k \<le> ceil_div n k"
proof -
  let ?m = "a * n + k - 1"
  have s: "Suc a * n + k - 1 = ?m + n" using k by simp
  have d: "(?m + n) div k = ?m div k + n div k + (?m mod k + n mod k) div k"
    by (rule div_add1_eq)
  have diff: "ceil_div (Suc a * n) k - ceil_div (a * n) k = n div k + (?m mod k + n mod k) div k"
    unfolding ceil_div_def s d by simp
  show "n div k \<le> ceil_div (Suc a * n) k - ceil_div (a * n) k"
    unfolding diff by simp
  have c: "ceil_div n k = n div k + (n mod k + (k - 1)) div k"
  proof -
    have "(n + (k - 1)) div k = n div k + (k - 1) div k + (n mod k + (k - 1) mod k) div k"
      by (rule div_add1_eq)
    moreover from k have "(k - 1) div k = 0" and "(k - 1) mod k = k - 1" by simp_all
    moreover from k have "n + k - 1 = n + (k - 1)" by simp
    ultimately show ?thesis by (simp add: ceil_div_def)
  qed
  have "(?m mod k + n mod k) div k \<le> (n mod k + (k - 1)) div k"
  proof (rule div_le_mono)
    from k have "?m mod k < k" by simp
    then show "?m mod k + n mod k \<le> n mod k + (k - 1)" by simp
  qed
  then show "ceil_div (Suc a * n) k - ceil_div (a * n) k \<le> ceil_div n k"
    unfolding diff c by simp
qed

lemma ceil_div_slack: "0 < k \<Longrightarrow> ceil_div n k \<le> Suc (n div k)"
proof -
  assume k: "0 < k"
  have e: "n = n div k * k + n mod k" by simp
  from k have r: "n mod k < k" by simp
  have x: "Suc (Suc (n div k)) * k = n div k * k + k + k" by simp
  from e r k have "n + k - 1 < n div k * k + k + k" by linarith
  then have "n + k - 1 < Suc (Suc (n div k)) * k" by (simp only: x)
  then have "(n + k - 1) div k < Suc (Suc (n div k))"
    using k by (simp only: div_less_iff_less_mult)
  then show ?thesis by (simp add: ceil_div_def)
qed

lemma bucket_card:
  assumes k: "0 < k" and n: "0 < n" and a: "a < k"
  shows "n div k \<le> card {p. p < n \<and> p * k div n = a}"
    and "card {p. p < n \<and> p * k div n = a} \<le> ceil_div n k"
  unfolding bucket_interval [OF k n a] card_atLeastLessThan
  by (rule bucket_size_bounds [OF k])+

lemma ceiling_ceil_div:
  assumes k: "0 < k"
  shows "\<lceil>real n / real k\<rceil> = int (ceil_div n k)"
proof (rule antisym)
  have "ceil_div n k \<le> ceil_div n k" by simp
  with k have "n \<le> ceil_div n k * k" by (simp only: ceil_div_le_iff)
  then have "real n \<le> real (ceil_div n k) * real k"
    by (metis of_nat_le_iff of_nat_mult)
  moreover from k have kr: "0 < real k" by simp
  ultimately have "real n / real k \<le> real (ceil_div n k)"
    by (simp only: pos_divide_le_eq [OF kr])
  then show "\<lceil>real n / real k\<rceil> \<le> int (ceil_div n k)" by (simp add: ceiling_le_iff)
next
  let ?z = "nat \<lceil>real n / real k\<rceil>"
  have "0 \<le> real n / real k" by simp
  then have nn: "0 \<le> \<lceil>real n / real k\<rceil>" by linarith
  have "real n / real k \<le> real_of_int \<lceil>real n / real k\<rceil>" by (rule le_of_int_ceiling)
  with nn have h: "real n / real k \<le> real ?z" by simp
  from k have kr: "0 < real k" by simp
  from h have "real n \<le> real ?z * real k" by (simp only: pos_divide_le_eq [OF kr])
  then have "n \<le> ?z * k" by (metis of_nat_le_iff of_nat_mult)
  with k have "ceil_div n k \<le> ?z" by (simp only: ceil_div_le_iff)
  with nn show "int (ceil_div n k) \<le> \<lceil>real n / real k\<rceil>" by linarith
qed

lemma category_group_card:
  assumes r: "categorize_cells gw gr cells cfg = Inr cells'"
    and K1: "1 \<le> N_FOOTFALL_CATEGORIES cfg" and a: "0 \<le> a"
  shows "length (filter (\<lambda>c. footfall_category c = a) cells')
     = card {p. p < length cells
               \<and> p * nat (N_FOOTFALL_CATEGORIES cfg) div length cells = nat a}"
proof -
  let ?K = "N_FOOTFALL_CATEGORIES cfg"
  let ?n = "length cells"
  let ?o = "score_order cells"
  let ?P = "\<lambda>c. footfall_category c = a"
  let ?A = "{p. p < ?n \<and> ?P (cells' ! (?o ! p))}"
  let ?B = "{j. j < ?n \<and> ?P (cells' ! j)}"
  from categorize_cells_spec [OF r] have l: "length cells' = ?n"
    and m: "\<forall>p<?n. footfall_category (cells' ! (?o ! p)) = category_at ?K ?n p"
    by blast+
  have mem: "?o ! p < ?n" if "p < ?n" for p
  proof -
    from that have "?o ! p \<in> set ?o" by (simp add: score_order_props(3))
    then show ?thesis by (simp add: score_order_props(2))
  qed
  have img: "?B = (\<lambda>p. ?o ! p) ` ?A"
  proof (intro set_eqI iffI)
    fix j assume "j \<in> ?B"
    then have j: "j < ?n" and pj: "?P (cells' ! j)" by simp_all
    from j have "j \<in> set ?o" by (simp add: score_order_props(2))
    then obtain p where "p < length ?o" and "?o ! p = j" by (auto simp: in_set_conv_nth)
    with pj have "p \<in> ?A" and "j = ?o ! p" by (simp_all add: score_order_props(3))
    then show "j \<in> (\<lambda>p. ?o ! p) ` ?A" by (rule rev_image_eqI)
  next
    fix j assume "j \<in> (\<lambda>p. ?o ! p) ` ?A"
    then obtain p where "p \<in> ?A" and "j = ?o ! p" by blast
    with mem show "j \<in> ?B" by simp
  qed
  have inj: "inj_on (\<lambda>p. ?o ! p) ?A"
    using score_order_props(1) [of cells]
    by (auto simp: inj_on_def nth_eq_iff_index_eq score_order_props(3))
  have "length (filter ?P cells') = card {j. j < length cells' \<and> ?P (cells' ! j)}"
    by (rule length_filter_conv_card)
  also have "\<dots> = card ?B" by (simp only: l)
  also have "\<dots> = card ?A" unfolding img using inj by (rule card_image)
  also have "?A = {p. p < ?n \<and> p * nat ?K div ?n = nat a}"
  proof -
    have "?P (cells' ! (?o ! p)) \<longleftrightarrow> p * nat ?K div ?n = nat a" if p: "p < ?n" for p
    proof -
      from m p have "footfall_category (cells' ! (?o ! p)) = category_at ?K ?n p" by blast
      also from p K1 have "\<dots> = int (p * nat ?K div ?n)" by (rule category_at_nat)
      finally show ?thesis using a by auto
    qed
    then show ?thesis by auto
  qed
  finally show ?thesis .
qed

text \<open>Claim C8. After a normal return of \<^verbatim>\<open>categorize_cells\<close> on a nonempty list of \<open>n\<close> cells with \<open>K \<ge> 1\<close>, every category lies in \<open>[0, K)\<close>, each of the \<open>K\<close> groups has between \<open>floor(n / K)\<close> and \<open>ceiling(n / K)\<close> cells, and the sizes of any two groups differ by at most one.\<close>

theorem balanced_categories:
  assumes r: "categorize_cells gw gr cells cfg = Inr cells'" and ne: "cells \<noteq> []"
    and K1: "1 \<le> N_FOOTFALL_CATEGORIES cfg"
  shows "(\<forall>c\<in>set cells'. 0 \<le> footfall_category c
              \<and> footfall_category c < N_FOOTFALL_CATEGORIES cfg)
     \<and> (\<forall>a. 0 \<le> a \<and> a < N_FOOTFALL_CATEGORIES cfg \<longrightarrow>
           \<lfloor>real (length cells) / real_of_int (N_FOOTFALL_CATEGORIES cfg)\<rfloor>
             \<le> int (length (filter (\<lambda>c. footfall_category c = a) cells'))
         \<and> int (length (filter (\<lambda>c. footfall_category c = a) cells'))
             \<le> \<lceil>real (length cells) / real_of_int (N_FOOTFALL_CATEGORIES cfg)\<rceil>)
     \<and> (\<forall>a b. 0 \<le> a \<and> a < N_FOOTFALL_CATEGORIES cfg
              \<and> 0 \<le> b \<and> b < N_FOOTFALL_CATEGORIES cfg \<longrightarrow>
           \<bar>int (length (filter (\<lambda>c. footfall_category c = a) cells'))
              - int (length (filter (\<lambda>c. footfall_category c = b) cells'))\<bar> \<le> 1)"
proof -
  let ?K = "N_FOOTFALL_CATEGORIES cfg"
  let ?k = "nat ?K"
  let ?n = "length cells"
  let ?o = "score_order cells"
  let ?size = "\<lambda>a. length (filter (\<lambda>c. footfall_category c = a) cells')"
  from K1 have k: "0 < ?k" by simp
  from ne have n: "0 < ?n" by simp
  from K1 have rk: "real_of_int ?K = real ?k" by simp
  from categorize_cells_spec [OF r] have l: "length cells' = ?n"
    and m: "\<forall>p<?n. footfall_category (cells' ! (?o ! p)) = category_at ?K ?n p"
    by blast+
  have range: "0 \<le> footfall_category c \<and> footfall_category c < ?K" if "c \<in> set cells'" for c
  proof -
    from that l obtain j where j: "j < ?n" and c: "c = cells' ! j"
      by (auto simp: in_set_conv_nth)
    from j have "j \<in> set ?o" by (simp add: score_order_props(2))
    then obtain p where p: "p < ?n" and e: "?o ! p = j"
      by (auto simp: in_set_conv_nth score_order_props(3))
    from m p e c have "footfall_category c = category_at ?K ?n p" by auto
    with category_at_range [OF p K1] show ?thesis by simp
  qed
  have lo: "\<lfloor>real ?n / real_of_int ?K\<rfloor> = int (?n div ?k)"
    unfolding rk by (rule floor_divide_of_nat_eq)
  have hi: "\<lceil>real ?n / real_of_int ?K\<rceil> = int (ceil_div ?n ?k)"
    unfolding rk using k by (rule ceiling_ceil_div)
  have bounds: "?n div ?k \<le> ?size a \<and> ?size a \<le> ceil_div ?n ?k"
    if a: "0 \<le> a" "a < ?K" for a
  proof -
    from a have ak: "nat a < ?k" by simp
    from category_group_card [OF r K1 a(1)] bucket_card [OF k n ak] show ?thesis by simp
  qed
  have slack: "ceil_div ?n ?k \<le> Suc (?n div ?k)" using k by (rule ceil_div_slack)
  have diff: "\<bar>int (?size a) - int (?size b)\<bar> \<le> 1"
    if "0 \<le> a \<and> a < ?K \<and> 0 \<le> b \<and> b < ?K" for a b
    using bounds [of a] bounds [of b] slack that by linarith
  show ?thesis
    apply (intro conjI ballI allI impI)
        apply (simp add: range)
       apply (simp add: range)
      apply (simp only: lo of_nat_le_iff bounds)
     apply (simp only: hi of_nat_le_iff bounds)
    apply (rule diff, assumption)
    done
qed

lemma tie_order: "score_order tie_cells = [1, 2, 0]"
  by (simp add: score_order_def tie_cells_def new_grid_cell_def upt_rec)

lemma cat_vals:
  "category_at 8 3 0 = 0" "category_at 8 3 1 = 2" "category_at 8 3 2 = 5"
  by (simp_all add: category_at_def py_int_def)

lemma tie_categories:
  "\<exists>cells'. categorize_cells gw gr tie_cells default_config = Inr cells'
     \<and> map footfall_category cells' = [5, 0, 2]"
proof -
  have K: "N_FOOTFALL_CATEGORIES default_config = 8" by (simp add: default_config_def)
  from categorize_cells_total [of default_config gw gr tie_cells] K obtain cells' where
    r: "categorize_cells gw gr tie_cells default_config = Inr cells'" by auto
  have n: "length tie_cells = 3" by (simp add: tie_cells_def)
  from categorize_cells_spec(1,2) [OF r] n K tie_order cat_vals
  have l: "length cells' = 3"
    and c: "\<forall>p<3. footfall_category (cells' ! ([1, 2, 0] ! p)) = category_at 8 3 p"
    by simp_all
  from c have "footfall_category (cells' ! 1) = 0" using cat_vals by (auto dest: spec [of _ 0])
  moreover from c have "footfall_category (cells' ! 2) = 2"
    using cat_vals by (auto dest: spec [of _ 1])
  moreover from c have "footfall_category (cells' ! 0) = 5"
    using cat_vals by (auto dest: spec [of _ 2])
  ultimately have "map footfall_category cells' = [5, 0, 2]"
    using l by (auto simp: list_eq_iff_nth_eq nth_Cons' less_Suc_eq numeral_3_eq_3 numeral_2_eq_2)
  with r show ?thesis by (intro exI [of _ cells'] conjI)
qed

text \<open>Witness for C2: three cells with the scores \<open>0.5\<close>, \<open>0.2\<close>, \<open>0.2\<close> and \<open>K = 8\<close>. The two tied cells keep their order and get the categories \<open>0\<close> and \<open>2\<close>, the first cell gets \<open>5\<close>.\<close>

theorem percentile_categories_witness:
  "(1 \<le> N_FOOTFALL_CATEGORIES default_config \<and> N_FOOTFALL_CATEGORIES default_config \<le> 8)
   \<and> (\<exists>cells'. categorize_cells (\<lambda>lo la. ''West End'') (\<lambda>la lo w. ''Oxford Street'')
                   tie_cells default_config = Inr cells'
        \<and> length cells' = 3 \<and> map footfall_category cells' = [5, 0, 2]
        \<and> (\<exists>order. distinct order \<and> set order = {0..<3}
              \<and> footfall_category (cells' ! (order ! 0)) = 0
              \<and> footfall_category (cells' ! (order ! 1)) = 2
              \<and> footfall_category (cells' ! (order ! 2)) = 5))"
proof -
  let ?gw = "\<lambda>lo la :: real. ''West End''"
  let ?gr = "\<lambda>(la :: real) (lo :: real) (w :: string). ''Oxford Street''"
  have K: "N_FOOTFALL_CATEGORIES default_config = 8" by (simp add: default_config_def)
  have n: "length tie_cells = 3" by (simp add: tie_cells_def)
  note inst = percentile_categories [of default_config ?gw ?gr tie_cells]
  have h: "1 \<le> N_FOOTFALL_CATEGORIES default_config \<and> N_FOOTFALL_CATEGORIES default_config \<le> 8"
    by (simp add: K)
  from inst [THEN conjunct1, rule_format, OF h] obtain cells' where
    r: "categorize_cells ?gw ?gr tie_cells default_config = Inr cells'" ..
  note after = inst [THEN conjunct2, rule_format, OF r]
  from after have l: "length cells' = length tie_cells" by (rule conjunct1)
  from after [THEN conjunct2, THEN conjunct2] obtain order where
    o: "distinct order \<and> set order = {0..<length tie_cells}
        \<and> sorted (map (\<lambda>c. footfall_score (tie_cells ! c)) order)
        \<and> (\<forall>p q. p < q \<and> q < length tie_cells
              \<and> footfall_score (tie_cells ! (order ! p)) = footfall_score (tie_cells ! (order ! q))
              \<longrightarrow> order ! p < order ! q)
        \<and> (\<forall>p<length tie_cells. footfall_category (cells' ! (order ! p))
              = min \<lfloor>real p / real (length tie_cells)
                       * real_of_int (N_FOOTFALL_CATEGORIES default_config)\<rfloor>
                    (N_FOOTFALL_CATEGORIES default_config - 1))" ..
  from o have d: "distinct order" by (rule conjunct1)
  from o have s: "set order = {0..<length tie_cells}" by (rule conjunct2 [THEN conjunct1])
  from o have c: "\<forall>p<length tie_cells. footfall_category (cells' ! (order ! p))
        = min \<lfloor>real p / real (length tie_cells)
                 * real_of_int (N_FOOTFALL_CATEGORIES default_config)\<rfloor>
              (N_FOOTFALL_CATEGORIES default_config - 1)"
    by (rule conjunct2 [THEN conjunct2, THEN conjunct2, THEN conjunct2])
  from c have c0: "footfall_category (cells' ! (order ! 0)) = 0"
    unfolding n K by (auto dest: spec [of _ 0])
  from c have "footfall_category (cells' ! (order ! 1)) = min \<lfloor>real 1 / real 3 * 8\<rfloor> 7"
    unfolding n K by (auto dest: spec [of _ 1])
  moreover have "\<lfloor>real 1 / real 3 * 8\<rfloor> = (2 :: int)" by (simp add: floor_eq_iff)
  ultimately have c1: "footfall_category (cells' ! (order ! 1)) = 2" by simp
  from c have "footfall_category (cells' ! (order ! 2)) = min \<lfloor>real 2 / real 3 * 8\<rfloor> 7"
    unfolding n K by (auto dest: spec [of _ 2])
  moreover have "\<lfloor>real 2 / real 3 * 8\<rfloor> = (5 :: int)" by (simp add: floor_eq_iff)
  ultimately have c2: "footfall_category (cells' ! (order ! 2)) = 5" by simp
  from tie_categories [of ?gw ?gr] r have m: "map footfall_category cells' = [5, 0, 2]" by auto
  from l n have l3: "length cells' = 3" by simp
  from s n have s3: "set order = {0..<3}" by simp
  have "\<exists>order. distinct order \<and> set order = {0..<3}
              \<and> footfall_category (cells' ! (order ! 0)) = 0
              \<and> footfall_category (cells' ! (order ! 1)) = 2
              \<and> footfall_category (cells' ! (order ! 2)) = 5"
    using d s3 c0 c1 c2 by (intro exI [of _ order] conjI)
  with K r l3 m show ?thesis by (intro conjI exI [of _ cells']) simp_all
qed

text \<open>Witness for C8 on the same three cells.\<close>

theorem balanced_categories_witness:
  "tie_cells \<noteq> [] \<and> 1 \<le> N_FOOTFALL_CATEGORIES default_config
   \<and> (\<exists>cells'. categorize_cells (\<lambda>lo la. ''West End'') (\<lambda>la lo w. ''Oxford Street'')
                   tie_cells default_config = Inr cells'
        \<and> map footfall_category cells' = [5, 0, 2]
        \<and> 0 \<le> footfall_category (cells' ! 0) \<and> footfall_category (cells' ! 0) < 8
        \<and> (0 :: int) \<le> int (length (filter (\<lambda>c. footfall_category c = 5) cells'))
        \<and> int (length (filter (\<lambda>c. footfall_category c = 5) cells')) \<le> 1
        \<and> \<bar>int (length (filter (\<lambda>c. footfall_category c = 5) cells'))
             - int (length (filter (\<lambda>c. footfall_category c = 1) cells'))\<bar> \<le> 1)"
proof -
  let ?gw = "\<lambda>lo la :: real. ''West End''"
  let ?gr = "\<lambda>(la :: real) (lo :: real) (w :: string). ''Oxford Street''"
  have K: "N_FOOTFALL_CATEGORIES default_config = 8" by (simp add: default_config_def)
  have ne: "tie_cells \<noteq> []" by (simp add: tie_cells_def)
  have K1: "1 \<le> N_FOOTFALL_CATEGORIES default_config" by (simp add: K)
  have n: "length tie_cells = 3" by (simp add: tie_cells_def)
  from tie_categories [of ?gw ?gr] obtain cells' where
    rm: "categorize_cells ?gw ?gr tie_cells default_config = Inr cells'
      \<and> map footfall_category cells' = [5, 0, 2]" ..
  from rm have r: "categorize_cells ?gw ?gr tie_cells default_config = Inr cells'"
    by (rule conjunct1)
  from rm have m: "map footfall_category cells' = [5, 0, 2]" by (rule conjunct2)
  note inst = balanced_categories [OF r ne K1, unfolded K]
  from m have "cells' \<noteq> []" by auto
  then have mem: "cells' ! 0 \<in> set cells'" by simp
  from inst [THEN conjunct1, rule_format, OF mem]
  have a: "0 \<le> footfall_category (cells' ! 0) \<and> footfall_category (cells' ! 0) < 8" .
  have five: "(0 :: int) \<le> 5 \<and> (5 :: int) < 8" by simp
  from inst [THEN conjunct2, THEN conjunct1, rule_format, OF five]
  have "\<lfloor>real (length tie_cells) / real_of_int 8\<rfloor>
             \<le> int (length (filter (\<lambda>c. footfall_category c = 5) cells'))
         \<and> int (length (filter (\<lambda>c. footfall_category c = 5) cells'))
             \<le> \<lceil>real (length tie_cells) / real_of_int 8\<rceil>" .
  moreover have "\<lfloor>real (length tie_cells) / real_of_int 8\<rfloor> = 0"
    unfolding n by (simp add: floor_eq_iff)
  moreover have "\<lceil>real (length tie_cells) / real_of_int 8\<rceil> = 1"
    unfolding n by (simp add: ceiling_eq_iff)
  ultimately have b: "(0 :: int) \<le> int (length (filter (\<lambda>c. footfall_category c = 5) cells'))
      \<and> int (length (filter (\<lambda>c. footfall_category c = 5) cells')) \<le> 1"
    by simp
  have both: "(0 :: int) \<le> 5 \<and> (5 :: int) < 8 \<and> (0 :: int) \<le> 1 \<and> (1 :: int) < 8" by simp
  from inst [THEN conjunct2, THEN conjunct2, rule_format, OF both]
  have c: "\<bar>int (length (filter (\<lambda>c. footfall_category c = 5) cells'))
             - int (length (filter (\<lambda>c. footfall_category c = 1) cells'))\<bar> \<le> 1" .
  from ne K1 r m a b c show ?thesis by (intro conjI exI [of _ cells']) simp_all
qed

section \<open>The analysis run: proofs and claims\<close>

lemma run_categorize_fails:
  assumes "analysed_cells env (st_config s) = Some (Inl e)"
  shows "\<exists>s'. run_full_analysis env s = Some s' \<and> st_status s' = ''error''
     \<and> st_message s' = ''Error: '' @ error_text e
     \<and> st_cells s' = st_cells s \<and> st_bins s' = st_bins s"
  using assms
  by (auto simp: run_full_analysis_def analysed_cells_def failed_def Let_def
      split: option.splits sum.splits)

lemma run_sample_bins_fail:
  assumes "analysed_cells env (st_config s) = Some (Inr cells)" and "sample_bins env = Inl e"
  shows "\<exists>s'. run_full_analysis env s = Some s' \<and> st_status s' = ''error''
     \<and> st_message s' = ''Error: '' @ error_text e
     \<and> st_cells s' = Some cells \<and> st_bins s' = st_bins s"
  using assms
  by (auto simp: run_full_analysis_def analysed_cells_def failed_def Let_def
      split: option.splits sum.splits)

lemma run_save_fails:
  assumes "analysed_cells env (st_config s) = Some (Inr cells)" and "sample_bins env = Inr bins"
    and "save_outputs env = Inl e"
  shows "\<exists>s' bins' selected. run_full_analysis env s = Some s' \<and> st_status s' = ''error''
     \<and> st_message s' = ''Error: '' @ error_text e
     \<and> st_cells s' = Some cells \<and> st_bins s' = Some bins'
     \<and> optimize_sensor_placement (fst (assign_bins_to_cells bins cells (st_config s))) 1000
           (N_FOOTFALL_CATEGORIES (st_config s)) = Some (Inr (bins', selected))"
proof -
  from optimize_spec [of "fst (assign_bins_to_cells bins cells (st_config s))" 1000
      "N_FOOTFALL_CATEGORIES (st_config s)"]
  obtain bins' selected where
    o: "optimize_sensor_placement (fst (assign_bins_to_cells bins cells (st_config s))) 1000
           (N_FOOTFALL_CATEGORIES (st_config s)) = Some (Inr (bins', selected))"
    by blast
  with assms show ?thesis
    by (auto simp: run_full_analysis_def analysed_cells_def failed_def Let_def
        split: option.splits sum.splits)
qed

lemma run_completes:
  assumes "analysed_cells env (st_config s) = Some (Inr cells)" and "sample_bins env = Inr bins"
    and "save_outputs env = Inr u"
  shows "\<exists>s' bins' selected. run_full_analysis env s = Some s' \<and> st_status s' = ''complete''
     \<and> st_message s' = ''Analysis complete!'' \<and> st_progress s' = 100
     \<and> st_cells s' = Some cells \<and> st_bins s' = Some bins'
     \<and> optimize_sensor_placement (fst (assign_bins_to_cells bins cells (st_config s))) 1000
           (N_FOOTFALL_CATEGORIES (st_config s)) = Some (Inr (bins', selected))"
proof -
  from optimize_spec [of "fst (assign_bins_to_cells bins cells (st_config s))" 1000
      "N_FOOTFALL_CATEGORIES (st_config s)"]
  obtain bins' selected where
    o: "optimize_sensor_placement (fst (assign_bins_to_cells bins cells (st_config s))) 1000
           (N_FOOTFALL_CATEGORIES (st_config s)) = Some (Inr (bins', selected))"
    by blast
  with assms show ?thesis
    by (auto simp: run_full_analysis_def analysed_cells_def Let_def
        split: option.splits sum.splits)
qed

lemma nine_labels_grid: "create_grid nine_labels_config = Some []"
  by (simp add: create_grid_def nine_labels_config_def empty_box_config_def default_config_def
      grid_rows.simps)

lemma calculate_Nil: "calculate_footfall_scores [] tubes buses places cfg = []"
  using calculate_length [of "[]" tubes buses places cfg] by simp

lemma nine_labels_raise:
  "categorize_cells gw gr [] nine_labels_config = Inl IndexError"
proof -
  have k: "nat (N_FOOTFALL_CATEGORIES nine_labels_config) = 9"
    by (simp add: nine_labels_config_def)
  have p: "print_categories (map int [0..<9]) = Inl IndexError"
    by (simp add: upt_rec py_index_def category_names_def)
  show ?thesis
    by (simp add: categorize_cells_def k p)
qed

lemma analysed_nine_labels:
  "analysed_cells env nine_labels_config = Some (Inl IndexError)"
  by (simp add: analysed_cells_def nine_labels_grid calculate_Nil nine_labels_raise)

lemma analysed_one_cell:
  "\<exists>c. analysed_cells env one_cell_config = Some (Inr [c])"
proof -
  let ?scored = "calculate_footfall_scores [new_grid_cell ''CELL00000'' 51.51 (- 0.15)]
      (load_tube_stations env) (load_bus_stops env one_cell_config)
      (load_licensed_premises env) one_cell_config"
  have "1 \<le> N_FOOTFALL_CATEGORIES one_cell_config" "N_FOOTFALL_CATEGORIES one_cell_config \<le> 8"
    by (simp_all add: one_cell_config_def default_config_def)
  from categorize_cells_total [OF this] obtain cells' where
    c: "categorize_cells (get_ward_for_location env) (get_road_for_cell env) ?scored
          one_cell_config = Inr cells'"
    by blast
  from categorize_cells_spec(1) [OF c] have "length cells' = 1"
    by (simp add: calculate_length)
  then obtain x where "cells' = [x]"
    by (cases cells') simp_all
  with c show ?thesis
    by (simp add: analysed_cells_def one_cell_grid)
qed

lemma run_keeps_config:
  "run_full_analysis env s = Some s' \<Longrightarrow> st_config s' = st_config s"
  by (auto simp: run_full_analysis_def failed_def Let_def split: option.splits sum.splits)

lemma complete_run_results:
  assumes "run_full_analysis env s = Some s'" and "st_status s' = ''complete''"
  shows "\<exists>cells bins r. analysed_cells env (st_config s) = Some (Inr cells)
     \<and> sample_bins env = Inr bins
     \<and> optimize_sensor_placement (fst (assign_bins_to_cells bins cells (st_config s))) 1000
           (N_FOOTFALL_CATEGORIES (st_config s)) = Some (Inr r)
     \<and> st_cells s' = Some cells \<and> st_bins s' = Some (fst r)"
  using assms
  by (auto simp: run_full_analysis_def analysed_cells_def failed_def Let_def
      split: option.splits sum.splits)

lemma rerun_unchanged:
  assumes prior: "run_full_analysis env0 s0 = Some s" and ok: "st_status s = ''complete''"
    and t: "st_config t = st_config s" "st_cells t = st_cells s" "st_bins t = st_bins s"
    and same: "load_tube_stations env = load_tube_stations env0"
      "load_bus_stops env = load_bus_stops env0"
      "load_licensed_premises env = load_licensed_premises env0"
      "get_ward_for_location env = get_ward_for_location env0"
      "get_road_for_cell env = get_road_for_cell env0"
    and data: "\<And>bins. sample_bins env = Inr bins \<Longrightarrow> sample_bins env0 = Inr bins"
  shows "\<exists>t'. run_full_analysis env t = Some t'
     \<and> st_cells t' = st_cells s \<and> st_bins t' = st_bins s"
proof -
  from complete_run_results [OF prior ok] obtain cells bins r where
    a0: "analysed_cells env0 (st_config s0) = Some (Inr cells)"
    and b0: "sample_bins env0 = Inr bins"
    and o0: "optimize_sensor_placement (fst (assign_bins_to_cells bins cells (st_config s0))) 1000
           (N_FOOTFALL_CATEGORIES (st_config s0)) = Some (Inr r)"
    and c: "st_cells s = Some cells" and b: "st_bins s = Some (fst r)"
    by blast
  have cfg: "st_config t = st_config s0"
    by (simp only: t run_keeps_config [OF prior])
  have "analysed_cells env (st_config t) = analysed_cells env0 (st_config s0)"
    by (simp only: analysed_cells_def same cfg)
  with a0 have a: "analysed_cells env (st_config t) = Some (Inr cells)"
    by simp
  show ?thesis
  proof (cases "sample_bins env")
    case (Inl e)
    from run_sample_bins_fail [OF a Inl] t c show ?thesis
      by auto
  next
    case (Inr bins')
    from data [OF Inr] b0 have same_bins: "bins' = bins" by simp
    with Inr have sb: "sample_bins env = Inr bins" by simp
    show ?thesis
    proof (cases "save_outputs env")
      case (Inl e)
      from run_save_fails [OF a sb Inl] obtain t' bins'' selected where
        "run_full_analysis env t = Some t'" "st_cells t' = Some cells"
        "st_bins t' = Some bins''"
        "optimize_sensor_placement (fst (assign_bins_to_cells bins cells (st_config t))) 1000
           (N_FOOTFALL_CATEGORIES (st_config t)) = Some (Inr (bins'', selected))"
        by blast
      with o0 c b show ?thesis
        by (auto simp: cfg)
    next
      case (Inr u)
      from run_completes [OF a sb Inr] obtain t' bins'' selected where
        "run_full_analysis env t = Some t'" "st_cells t' = Some cells"
        "st_bins t' = Some bins''"
        "optimize_sensor_placement (fst (assign_bins_to_cells bins cells (st_config t))) 1000
           (N_FOOTFALL_CATEGORIES (st_config t)) = Some (Inr (bins'', selected))"
        by blast
      with o0 c b show ?thesis
        by (auto simp: cfg)
    qed
  qed
qed

text \<open>Claim C9. Whichever stage raises, the run ends with the status \<open>error\<close> and the message \<open>Error: \<close> followed by the text of the exception: the categorisation (then nothing has been assigned and the published cells and bins are those of the state before the run), the generation or loading of the sample bins, or the saving of the outputs; the placement itself never raises (lemma \<open>optimize_spec\<close>). \<^verbatim>\<open>run_full_analysis\<close> has no snapshot to restore: it assigns \<^verbatim>\<open>state.cells\<close> as soon as the categorisation has returned and \<^verbatim>\<open>state.bins\<close> as soon as the placement has been computed. What it assigns is computed from the configuration of the state and from the loaded data only. The server never changes \<^verbatim>\<open>state.config\<close> and the loaders and the sample bins are seeded, so a later run works on the configuration and the data of the earlier successful run; the last part of the theorem says that then every later run, failed or not, leaves the published cells and bins equal to those of the successful run. The state \<open>t\<close> in which the later run starts may be the state left by the successful run or by any failed run after it.\<close>

theorem failed_run_keeps_published_results:
  "(analysed_cells env (st_config t) = Some (Inl e) \<longrightarrow>
      (\<exists>t'. run_full_analysis env t = Some t' \<and> st_status t' = ''error''
         \<and> st_message t' = ''Error: '' @ error_text e
         \<and> st_cells t' = st_cells t \<and> st_bins t' = st_bins t))
   \<and> (analysed_cells env (st_config t) = Some (Inr cells) \<and> sample_bins env = Inl e \<longrightarrow>
      (\<exists>t'. run_full_analysis env t = Some t' \<and> st_status t' = ''error''
         \<and> st_message t' = ''Error: '' @ error_text e))
   \<and> (analysed_cells env (st_config t) = Some (Inr cells) \<and> sample_bins env = Inr bins
        \<and> save_outputs env = Inl e \<longrightarrow>
      (\<exists>t'. run_full_analysis env t = Some t' \<and> st_status t' = ''error''
         \<and> st_message t' = ''Error: '' @ error_text e))
   \<and> (run_full_analysis env0 s0 = Some s \<and> st_status s = ''complete''
        \<and> st_config t = st_config s \<and> st_cells t = st_cells s \<and> st_bins t = st_bins s
        \<and> load_tube_stations env = load_tube_stations env0
        \<and> load_bus_stops env = load_bus_stops env0
        \<and> load_licensed_premises env = load_licensed_premises env0
        \<and> get_ward_for_location env = get_ward_for_location env0
        \<and> get_road_for_cell env = get_road_for_cell env0
        \<and> (\<forall>bins. sample_bins env = Inr bins \<longrightarrow> sample_bins env0 = Inr bins) \<longrightarrow>
      (\<exists>t'. run_full_analysis env t = Some t'
         \<and> st_cells t' = st_cells s \<and> st_bins t' = st_bins s))"
proof (intro conjI impI)
  assume "analysed_cells env (st_config t) = Some (Inl e)"
  then show "\<exists>t'. run_full_analysis env t = Some t' \<and> st_status t' = ''error''
         \<and> st_message t' = ''Error: '' @ error_text e
         \<and> st_cells t' = st_cells t \<and> st_bins t' = st_bins t"
    by (rule run_categorize_fails)
next
  assume "analysed_cells env (st_config t) = Some (Inr cells) \<and> sample_bins env = Inl e"
  then have a: "analysed_cells env (st_config t) = Some (Inr cells)"
    and b: "sample_bins env = Inl e" by simp_all
  from run_sample_bins_fail [OF a b]
  show "\<exists>t'. run_full_analysis env t = Some t' \<and> st_status t' = ''error''
         \<and> st_message t' = ''Error: '' @ error_text e"
    by blast
next
  assume "analysed_cells env (st_config t) = Some (Inr cells) \<and> sample_bins env = Inr bins
        \<and> save_outputs env = Inl e"
  then have a: "analysed_cells env (st_config t) = Some (Inr cells)"
    and b: "sample_bins env = Inr bins" and c: "save_outputs env = Inl e" by simp_all
  from run_save_fails [OF a b c]
  show "\<exists>t'. run_full_analysis env t = Some t' \<and> st_status t' = ''error''
         \<and> st_message t' = ''Error: '' @ error_text e"
    by blast
next
  assume h: "run_full_analysis env0 s0 = Some s \<and> st_status s = ''complete''
        \<and> st_config t = st_config s \<and> st_cells t = st_cells s \<and> st_bins t = st_bins s
        \<and> load_tube_stations env = load_tube_stations env0
        \<and> load_bus_stops env = load_bus_stops env0
        \<and> load_licensed_premises env = load_licensed_premises env0
        \<and> get_ward_for_location env = get_ward_for_location env0
        \<and> get_road_for_cell env = get_road_for_cell env0
        \<and> (\<forall>bins. sample_bins env = Inr bins \<longrightarrow> sample_bins env0 = Inr bins)"
  then have data: "sample_bins env = Inr bins \<Longrightarrow> sample_bins env0 = Inr bins" for bins
    by blast
  from h show "\<exists>t'. run_full_analysis env t = Some t'
         \<and> st_cells t' = st_cells s \<and> st_bins t' = st_bins s"
    by (intro rerun_unchanged [where ?env0.0 = env0 and ?s0.0 = s0] data) simp_all
qed

lemma street_first_run:
  "\<exists>c b. run_full_analysis street_env (initial_state\<lparr>st_config := one_cell_config\<rparr>)
        = Some street_state
     \<and> st_status street_state = ''complete''
     \<and> st_config street_state = one_cell_config
     \<and> st_cells street_state = Some [c] \<and> st_bins street_state = Some [b]"
proof -
  let ?s0 = "initial_state\<lparr>st_config := one_cell_config\<rparr>"
  let ?bin = "new_bin ''BIN00000'' 51.51 (- 0.15)"
  from analysed_one_cell [of street_env] obtain c where
    "analysed_cells street_env one_cell_config = Some (Inr [c])" ..
  then have a: "analysed_cells street_env (st_config ?s0) = Some (Inr [c])"
    by simp
  have b: "sample_bins street_env = Inr [?bin]" and u: "save_outputs street_env = Inr ()"
    by (simp_all add: street_env_def)
  from run_completes [OF a b u] obtain s' bins' selected where
    r: "run_full_analysis street_env ?s0 = Some s'"
    and st: "st_status s' = ''complete''"
    and c1: "st_cells s' = Some [c]"
    and b1: "st_bins s' = Some bins'"
    and o: "optimize_sensor_placement (fst (assign_bins_to_cells [?bin] [c] (st_config ?s0))) 1000
           (N_FOOTFALL_CATEGORIES (st_config ?s0)) = Some (Inr (bins', selected))"
    by blast
  from optimize_spec [of "fst (assign_bins_to_cells [?bin] [c] (st_config ?s0))" 1000
      "N_FOOTFALL_CATEGORIES (st_config ?s0)"] o
  have "placed (fst (assign_bins_to_cells [?bin] [c] (st_config ?s0))) bins' selected"
    by auto
  then have "length bins' = length (fst (assign_bins_to_cells [?bin] [c] (st_config ?s0)))"
    by (simp add: placed_def)
  moreover have "length (fst (assign_bins_to_cells [?bin] [c] (st_config ?s0))) = 1"
    unfolding assign_bins_to_cells_def assign_loop_fst by simp
  ultimately have "length bins' = 1"
    by simp
  then obtain x where x: "bins' = [x]"
    by (cases bins') simp_all
  from r have p: "street_state = s'"
    by (simp add: street_state_def)
  from run_keeps_config [OF r] have k: "st_config s' = one_cell_config"
    by simp
  from r st k c1 b1 x show ?thesis
    unfolding p by simp
qed

text \<open>Witness for C9. A first run on a bounding box of one cell with one sample bin completes and publishes one cell and one bin. From the state it leaves, a run that fails while the sample bins are written (after \<^verbatim>\<open>state.cells\<close> has been assigned again) and a run that fails while the outputs are saved (after \<^verbatim>\<open>state.bins\<close> has been assigned again) both end with the status \<open>error\<close> and leave the published cells and bins as they were. Nine categories for the table of eight labels make the categorisation of a first run raise.\<close>

theorem failed_run_keeps_published_results_witness:
  "run_full_analysis street_env (initial_state\<lparr>st_config := one_cell_config\<rparr>)
       = Some street_state
   \<and> st_status street_state = ''complete''
   \<and> (\<exists>c. st_cells street_state = Some [c])
   \<and> (\<exists>b. st_bins street_state = Some [b])
   \<and> (\<exists>t'. run_full_analysis full_disk_env street_state = Some t'
         \<and> st_status t' = ''error''
         \<and> st_message t' = ''Error: [Errno 28] No space left on device''
         \<and> st_cells t' = st_cells street_state \<and> st_bins t' = st_bins street_state)
   \<and> (\<exists>t'. run_full_analysis locked_disk_env street_state = Some t'
         \<and> st_status t' = ''error''
         \<and> st_message t' = ''Error: [Errno 30] Read-only file system''
         \<and> st_cells t' = st_cells street_state \<and> st_bins t' = st_bins street_state)
   \<and> (\<exists>t'. run_full_analysis street_env (initial_state\<lparr>st_config := nine_labels_config\<rparr>)
           = Some t'
         \<and> st_status t' = ''error'' \<and> st_message t' = ''Error: list index out of range'')"
proof -
  let ?s0 = "initial_state\<lparr>st_config := one_cell_config\<rparr>"
  let ?s9 = "initial_state\<lparr>st_config := nine_labels_config\<rparr>"
  let ?bin = "new_bin ''BIN00000'' 51.51 (- 0.15)"
  let ?e28 = "OSError ''[Errno 28] No space left on device''"
  let ?e30 = "OSError ''[Errno 30] Read-only file system''"
  from street_first_run obtain c b where
    r: "run_full_analysis street_env ?s0 = Some street_state"
    and ok: "st_status street_state = ''complete''"
    and k: "st_config street_state = one_cell_config"
    and c: "st_cells street_state = Some [c]" and b: "st_bins street_state = Some [b]"
    by blast
  from analysed_one_cell [of full_disk_env] obtain c2 where
    "analysed_cells full_disk_env one_cell_config = Some (Inr [c2])" ..
  with k have a2: "analysed_cells full_disk_env (st_config street_state) = Some (Inr [c2])"
    by simp
  from analysed_one_cell [of locked_disk_env] obtain c3 where
    "analysed_cells locked_disk_env one_cell_config = Some (Inr [c3])" ..
  with k have a3: "analysed_cells locked_disk_env (st_config street_state) = Some (Inr [c3])"
    by simp
  have f2: "sample_bins full_disk_env = Inl ?e28"
    by (simp add: full_disk_env_def)
  have f3: "sample_bins locked_disk_env = Inr [?bin]" "save_outputs locked_disk_env = Inl ?e30"
    by (simp_all add: locked_disk_env_def street_env_def)
  have same2: "load_tube_stations full_disk_env = load_tube_stations street_env"
    "load_bus_stops full_disk_env = load_bus_stops street_env"
    "load_licensed_premises full_disk_env = load_licensed_premises street_env"
    "get_ward_for_location full_disk_env = get_ward_for_location street_env"
    "get_road_for_cell full_disk_env = get_road_for_cell street_env"
    "\<forall>bins. sample_bins full_disk_env = Inr bins \<longrightarrow> sample_bins street_env = Inr bins"
    by (simp_all add: full_disk_env_def)
  have same3: "load_tube_stations locked_disk_env = load_tube_stations street_env"
    "load_bus_stops locked_disk_env = load_bus_stops street_env"
    "load_licensed_premises locked_disk_env = load_licensed_premises street_env"
    "get_ward_for_location locked_disk_env = get_ward_for_location street_env"
    "get_road_for_cell locked_disk_env = get_road_for_cell street_env"
    "\<forall>bins. sample_bins locked_disk_env = Inr bins \<longrightarrow> sample_bins street_env = Inr bins"
    by (simp_all add: locked_disk_env_def)
  note i2 = failed_run_keeps_published_results [where env = full_disk_env and t = street_state
      and e = ?e28 and cells = "[c2]" and ?env0.0 = street_env and ?s0.0 = ?s0
      and s = street_state]
  from i2 a2 f2 obtain t2 where
    t2: "run_full_analysis full_disk_env street_state = Some t2"
    and st2: "st_status t2 = ''error''"
    and m2: "st_message t2 = ''Error: '' @ error_text ?e28"
    by blast
  from i2 r ok same2 obtain u2 where
    "run_full_analysis full_disk_env street_state = Some u2"
    and "st_cells u2 = st_cells street_state" and "st_bins u2 = st_bins street_state"
    by blast
  with t2 have k2: "st_cells t2 = st_cells street_state" "st_bins t2 = st_bins street_state"
    by simp_all
  from m2 have m2': "st_message t2 = ''Error: [Errno 28] No space left on device''"
    by (simp only: error_text.simps append.simps)
  note i3 = failed_run_keeps_published_results [where env = locked_disk_env and t = street_state
      and e = ?e30 and cells = "[c3]" and bins = "[?bin]" and ?env0.0 = street_env
      and ?s0.0 = ?s0 and s = street_state]
  from i3 a3 f3 obtain t3 where
    t3: "run_full_analysis locked_disk_env street_state = Some t3"
    and st3: "st_status t3 = ''error''"
    and m3: "st_message t3 = ''Error: '' @ error_text ?e30"
    by blast
  from i3 r ok same3 obtain u3 where
    "run_full_analysis locked_disk_env street_state = Some u3"
    and "st_cells u3 = st_cells street_state" and "st_bins u3 = st_bins street_state"
    by blast
  with t3 have k3: "st_cells t3 = st_cells street_state" "st_bins t3 = st_bins street_state"
    by simp_all
  from m3 have m3': "st_message t3 = ''Error: [Errno 30] Read-only file system''"
    by (simp only: error_text.simps append.simps)
  have a9: "analysed_cells street_env (st_config ?s9) = Some (Inl IndexError)"
    by (simp add: analysed_nine_labels)
  from failed_run_keeps_published_results [where env = street_env and t = ?s9
      and e = IndexError] a9
  obtain t9 where t9: "run_full_analysis street_env ?s9 = Some t9"
    and st9: "st_status t9 = ''error''"
    and m9: "st_message t9 = ''Error: '' @ error_text IndexError"
    by blast
  from m9 have m9': "st_message t9 = ''Error: list index out of range''"
    by (simp only: error_text.simps append.simps)
  have P2: "\<exists>t'. run_full_analysis full_disk_env street_state = Some t'
         \<and> st_status t' = ''error''
         \<and> st_message t' = ''Error: [Errno 28] No space left on device''
         \<and> st_cells t' = st_cells street_state \<and> st_bins t' = st_bins street_state"
    using t2 st2 m2' k2 by blast
  have P3: "\<exists>t'. run_full_analysis locked_disk_env street_state = Some t'
         \<and> st_status t' = ''error''
         \<and> st_message t' = ''Error: [Errno 30] Read-only file system''
         \<and> st_cells t' = st_cells street_state \<and> st_bins t' = st_bins street_state"
    using t3 st3 m3' k3 by blast
  have P9: "\<exists>t'. run_full_analysis street_env ?s9 = Some t'
         \<and> st_status t' = ''error'' \<and> st_message t' = ''Error: list index out of range''"
    using t9 st9 m9' by blast
  from c have C: "\<exists>c. st_cells street_state = Some [c]" by blast
  from b have B: "\<exists>b. st_bins street_state = Some [b]" by blast
  from r ok C B P2 P3 P9 show ?thesis
    by (intro conjI)
qed

end
